theory Spec2Isabelle
  imports Main
begin

section \<open>Strings\<close>

text \<open>
  JavaScript strings are modelled as \<^typ>\<open>string\<close>, with \<open>null\<close> as \<^const>\<open>None\<close> of
  \<^typ>\<open>string option\<close>. A \<^typ>\<open>char\<close> is one byte, so the model covers the code units
  0 to 255.

  \<open>is_ws\<close> is the class \<open>\s\<close> of a regular expression and the set of characters
  that \<open>String.prototype.trim\<close> removes, in that range: tab, line feed, vertical tab,
  form feed, carriage return, space and the no-break space.
\<close>

definition is_ws :: "char \<Rightarrow> bool" where
  "is_ws c = (c = CHR 0x09 \<or> c = CHR 0x0A \<or> c = CHR 0x0B \<or> c = CHR 0x0C
              \<or> c = CHR 0x0D \<or> c = CHR 0x20 \<or> c = CHR 0xA0)"

text \<open>\<open>/\s/.test(s)\<close>\<close>

definition has_ws :: "string \<Rightarrow> bool" where
  "has_ws s = (\<exists>c \<in> set s. is_ws c)"

text \<open>\<open>s.trim()\<close>\<close>

definition trim :: "string \<Rightarrow> string" where
  "trim s = rev (dropWhile is_ws (rev (dropWhile is_ws s)))"

text \<open>\<open>s.startsWith(p)\<close>\<close>

definition startsWith :: "string \<Rightarrow> string \<Rightarrow> bool" where
  "startsWith s p = (take (length p) s = p)"

text \<open>\<open>s.endsWith(p)\<close>\<close>

definition endsWith :: "string \<Rightarrow> string \<Rightarrow> bool" where
  "endsWith s p = (length p \<le> length s \<and> drop (length s - length p) s = p)"

text \<open>
  The truth value JavaScript gives a \<open>string|null\<close> in a condition: \<open>null\<close> and the
  empty string are false.
\<close>

definition truthy :: "string option \<Rightarrow> bool" where
  "truthy x = (case x of None \<Rightarrow> False | Some s \<Rightarrow> s \<noteq> [])"

text \<open>The characters of \<open>\w\<close>, which are \<open>[A-Za-z0-9_]\<close>.\<close>

definition is_word :: "char \<Rightarrow> bool" where
  "is_word c = (let n = (of_char c :: nat) in
     (48 \<le> n \<and> n \<le> 57) \<or> (65 \<le> n \<and> n \<le> 90) \<or> (97 \<le> n \<and> n \<le> 122) \<or> n = 95)"

text \<open>
  The canonical form of a character under the flag \<open>i\<close> is its upper case; a character
  above 127 never takes an ASCII character as its canonical form, so against an ASCII
  pattern only the letters \<open>a\<close> to \<open>z\<close> have to be folded.
\<close>

definition ascii_upper :: "char \<Rightarrow> char" where
  "ascii_upper c = (let n = (of_char c :: nat) in
     if 97 \<le> n \<and> n \<le> 122 then char_of (n - 32) else c)"

definition startsWith_ci :: "string \<Rightarrow> string \<Rightarrow> bool" where
  "startsWith_ci s p = (map ascii_upper (take (length p) s) = map ascii_upper p)"

text \<open>\<open>/p/i.test(s)\<close> for a pattern \<open>p\<close> of plain ASCII characters.\<close>

fun test_ci :: "string \<Rightarrow> string \<Rightarrow> bool" where
  "test_ci p [] = (p = [])"
| "test_ci p (c # cs) = (startsWith_ci (c # cs) p \<or> test_ci p cs)"

section \<open>The verb of an action name (src/tools/tools.js)\<close>

text \<open>
  The source returns one of the string literals \<open>"get"\<close>, \<open>"set"\<close>, \<open>"add"\<close>,
  \<open>"delete"\<close>, \<open>"list"\<close>, \<open>"check"\<close>, or \<open>null\<close>.
\<close>

datatype verbKind = GET | SET | ADD | DELETE | LIST | CHECK

definition getVerbFromActionName :: "string option \<Rightarrow> verbKind option" where
  "getVerbFromActionName actionName =
     (case actionName of
        None \<Rightarrow> None
      | Some a0 \<Rightarrow>
          if a0 = [] then None
          else let a = trim a0 in
            if startsWith a ''get'' then Some GET
            else if startsWith a ''set'' then Some SET
            else if startsWith a ''add'' then Some ADD
            else if startsWith a ''delete'' then Some DELETE
            else if test_ci ''list'' a then Some LIST
            else if startsWith a ''check'' then Some CHECK
            else Some CHECK)"

text \<open>
  The rules of the classifier as the specification words them: checked in order on the
  name itself, the first match wins.
\<close>

definition classifyVerb_spec :: "string option \<Rightarrow> verbKind option" where
  "classifyVerb_spec actionName =
     (case actionName of
        None \<Rightarrow> None
      | Some a \<Rightarrow>
          if a = [] then None
          else if startsWith a ''get'' then Some GET
          else if startsWith a ''set'' then Some SET
          else if startsWith a ''add'' then Some ADD
          else if startsWith a ''delete'' then Some DELETE
          else if test_ci ''list'' a then Some LIST
          else if startsWith a ''check'' then Some CHECK
          else Some CHECK)"

section \<open>The data model (src/tree)\<close>

subsection \<open>Insertion-ordered maps\<close>

text \<open>
  A JavaScript \<open>Map\<close> keeps its keys in insertion order: \<open>set\<close> on a key that is
  present replaces the value where it stands, on a new key it appends; \<open>delete\<close>
  removes the entry.
\<close>

definition Map_has :: "'k \<Rightarrow> ('k \<times> 'v) list \<Rightarrow> bool" where
  "Map_has k m = (k \<in> set (map fst m))"

definition Map_get :: "'k \<Rightarrow> ('k \<times> 'v) list \<Rightarrow> 'v option" where
  "Map_get k m = map_of m k"

fun Map_set :: "'k \<Rightarrow> 'v \<Rightarrow> ('k \<times> 'v) list \<Rightarrow> ('k \<times> 'v) list" where
  "Map_set k v [] = [(k, v)]"
| "Map_set k v (p # m) = (if fst p = k then (k, v) # m else p # Map_set k v m)"

definition Map_delete :: "'k \<Rightarrow> ('k \<times> 'v) list \<Rightarrow> ('k \<times> 'v) list" where
  "Map_delete k m = filter (\<lambda>p. fst p \<noteq> k) m"

subsection \<open>Errors\<close>

text \<open>Every \<open>throw\<close> of the source, and the one destructuring of \<open>undefined\<close>.\<close>

datatype error =
    EntityNameSpaces string
  | EntityNameEmpty
  | PropertyNameSpaces string
  | PropertyNameEmpty
  | VerbSpaces string
  | VerbEmpty
  | SectionNameSpaces string
  | SectionNameEmpty
  | RecordExists string
  | SectionExists string
  | FieldExists string
  | InvalidField string
  | TypeError

subsection \<open>Field (src/tree/field.js)\<close>

record Field =
  name :: string
  attributes :: "(string \<times> string option) list"
  isOptional :: bool
  defaultValue :: "string option"
  description :: "string option"

text \<open>
  The constructor stores its arguments; an argument left out takes its default
  (\<open>false\<close>, \<open>null\<close>, \<open>null\<close>).
\<close>

definition Field_new :: "string \<Rightarrow> bool \<Rightarrow> string option \<Rightarrow> string option \<Rightarrow> Field" where
  "Field_new n opt dv desc =
     \<lparr>Field.name = n, attributes = [], isOptional = opt, defaultValue = dv,
      Field.description = desc\<rparr>"

text \<open>\<open>setAttribute\<close> with a string or \<open>null\<close> for the value.\<close>

definition setAttribute :: "string \<Rightarrow> string option \<Rightarrow> Field \<Rightarrow> Field" where
  "setAttribute n v f = f\<lparr>attributes := Map_set n v (attributes f)\<rparr>"

subsection \<open>Section (src/tree/section.js)\<close>

text \<open>The field \<open>fields\<close> of the class is \<open>sfields\<close> here.\<close>

record Section =
  name :: string
  sfields :: "(string \<times> Field) list"

definition Section_new :: "string \<Rightarrow> error + Section" where
  "Section_new n =
     (if has_ws n then Inl (SectionNameSpaces n)
      else if length n = 0 then Inl SectionNameEmpty
      else Inr \<lparr>Section.name = n, sfields = []\<rparr>)"

text \<open>
  A method that changes its object returns the result, or the error it throws, together
  with the object as the call leaves it.
\<close>

definition Section_hasField :: "string \<Rightarrow> Section \<Rightarrow> bool" where
  "Section_hasField n s = Map_has n (sfields s)"

definition Section_addField :: "Field \<Rightarrow> Section \<Rightarrow> (error + unit) \<times> Section" where
  "Section_addField f s =
     (if Section_hasField (Field.name f) s then (Inl (FieldExists (Field.name f)), s)
      else (Inr (), s\<lparr>sfields := Map_set (Field.name f) f (sfields s)\<rparr>))"

definition Section_setField :: "Field \<Rightarrow> Section \<Rightarrow> Section" where
  "Section_setField f s = s\<lparr>sfields := Map_set (Field.name f) f (sfields s)\<rparr>"

definition Section_deleteField :: "string \<Rightarrow> Section \<Rightarrow> Section" where
  "Section_deleteField n s = s\<lparr>sfields := Map_delete n (sfields s)\<rparr>"

subsection \<open>Record (src/tree/record.js)\<close>

text \<open>
  The class also keeps \<open>mainSection\<close>, a second reference to the section object that
  the constructor stores under \<open>"main"\<close>; no method reads it, and it is left out.
\<close>

record Record =
  entityName :: string
  propertyName :: "string option"
  verb :: "string option"
  sections :: "(string \<times> Section) list"
  description :: "string option"

definition Record_new ::
  "string \<Rightarrow> string option \<Rightarrow> string option \<Rightarrow> string option \<Rightarrow> error + Record" where
  "Record_new en pn vb desc =
     (if has_ws en then Inl (EntityNameSpaces en)
      else if length en = 0 then Inl EntityNameEmpty
      else if truthy pn \<and> has_ws (the pn) then Inl (PropertyNameSpaces (the pn))
      else if truthy pn \<and> length (the pn) = 0 then Inl PropertyNameEmpty
      else if truthy vb \<and> has_ws (the vb) then Inl (VerbSpaces (the vb))
      else if truthy vb \<and> length (the vb) = 0 then Inl VerbEmpty
      else case Section_new ''main'' of
             Inl e \<Rightarrow> Inl e
           | Inr mainSection \<Rightarrow>
               Inr \<lparr>entityName = en, propertyName = pn, verb = vb,
                    sections = Map_set ''main'' mainSection [],
                    Record.description = desc\<rparr>)"

definition getFullName :: "Record \<Rightarrow> string" where
  "getFullName r =
     (let n = entityName r;
          n = (if truthy (propertyName r) then n @ ''.'' @ the (propertyName r) else n);
          n = (if truthy (verb r) then n @ ''.'' @ the (verb r) else n)
      in n)"

text \<open>
  A parameter \<open>sectionName = "main"\<close> is a \<^typ>\<open>string option\<close>: \<^const>\<open>None\<close> is the
  call that leaves the argument out.
\<close>

definition sectionNameOrMain :: "string option \<Rightarrow> string" where
  "sectionNameOrMain sn = (case sn of None \<Rightarrow> ''main'' | Some n \<Rightarrow> n)"

definition Record_hasSection :: "string \<Rightarrow> Record \<Rightarrow> bool" where
  "Record_hasSection n r = Map_has n (sections r)"

definition Record_getSection :: "string \<Rightarrow> Record \<Rightarrow> Section option" where
  "Record_getSection n r = Map_get n (sections r)"

definition Record_addSection :: "string \<Rightarrow> Record \<Rightarrow> (error + Section) \<times> Record" where
  "Record_addSection n r =
     (if Map_has n (sections r) then (Inl (SectionExists n), r)
      else case Section_new n of
             Inl e \<Rightarrow> (Inl e, r)
           | Inr s \<Rightarrow> (Inr s, r\<lparr>sections := Map_set n s (sections r)\<rparr>))"

definition Record_deleteSection :: "string \<Rightarrow> Record \<Rightarrow> Record" where
  "Record_deleteSection n r = r\<lparr>sections := Map_delete n (sections r)\<rparr>"

definition Record_setSection :: "Section \<Rightarrow> Record \<Rightarrow> Record" where
  "Record_setSection s r = r\<lparr>sections := Map_set (Section.name s) s (sections r)\<rparr>"

text \<open>
  \<open>addField\<close>, \<open>setField\<close> and \<open>deleteField\<close> change the section object that the
  map holds under \<open>sectionName\<close>; the model writes the changed section back under
  that key, which keeps its place in the map.
\<close>

definition Record_addField :: "Field \<Rightarrow> string option \<Rightarrow> Record \<Rightarrow> (error + unit) \<times> Record" where
  "Record_addField f sn r =
     (let n = sectionNameOrMain sn in
      case Map_get n (sections r) of
        Some s \<Rightarrow>
          (case Section_addField f s of
             (res, s') \<Rightarrow> (res, r\<lparr>sections := Map_set n s' (sections r)\<rparr>))
      | None \<Rightarrow>
          (case Record_addSection n r of
             (Inl e, r') \<Rightarrow> (Inl e, r')
           | (Inr s, r') \<Rightarrow>
               (case Section_addField f s of
                  (res, s') \<Rightarrow> (res, r'\<lparr>sections := Map_set n s' (sections r')\<rparr>))))"

definition Record_setField :: "Field \<Rightarrow> string option \<Rightarrow> Record \<Rightarrow> (error + unit) \<times> Record" where
  "Record_setField f sn r =
     (let n = sectionNameOrMain sn in
      case Map_get n (sections r) of
        Some s \<Rightarrow> (Inr (), r\<lparr>sections := Map_set n (Section_setField f s) (sections r)\<rparr>)
      | None \<Rightarrow>
          (case Record_addSection n r of
             (Inl e, r') \<Rightarrow> (Inl e, r')
           | (Inr s, r') \<Rightarrow>
               (Inr (), r'\<lparr>sections := Map_set n (Section_setField f s) (sections r')\<rparr>)))"

definition Record_deleteField :: "string \<Rightarrow> string option \<Rightarrow> Record \<Rightarrow> Record" where
  "Record_deleteField fn sn r =
     (let n = sectionNameOrMain sn in
      case Map_get n (sections r) of
        None \<Rightarrow> r
      | Some s \<Rightarrow> r\<lparr>sections := Map_set n (Section_deleteField fn s) (sections r)\<rparr>)"

subsection \<open>Tree (src/tree/tree.js)\<close>

record Tree =
  records :: "(string \<times> Record) list"

definition Tree_new :: Tree where
  "Tree_new = \<lparr>records = []\<rparr>"

definition Tree_addRecord ::
  "string \<Rightarrow> string option \<Rightarrow> string option \<Rightarrow> string option \<Rightarrow> Tree
     \<Rightarrow> (error + Record) \<times> Tree" where
  "Tree_addRecord en pn vb desc t =
     (case Record_new en pn vb desc of
        Inl e \<Rightarrow> (Inl e, t)
      | Inr record \<Rightarrow>
          (let fullName = getFullName record in
           if Map_has fullName (records t) then (Inl (RecordExists fullName), t)
           else (Inr record, t\<lparr>records := Map_set fullName record (records t)\<rparr>)))"

definition Tree_setRecord :: "Record \<Rightarrow> Tree \<Rightarrow> Tree" where
  "Tree_setRecord r t = t\<lparr>records := Map_set (getFullName r) r (records t)\<rparr>"

definition Tree_getRecord :: "string \<Rightarrow> Tree \<Rightarrow> Record option" where
  "Tree_getRecord n t = Map_get n (records t)"

section \<open>The parser (src/tools/treeFromString.js)\<close>

subsection \<open>Splitting and joining\<close>

text \<open>\<open>s.split(c)\<close> for a separator \<open>c\<close> of one character.\<close>

fun split_char :: "char \<Rightarrow> string \<Rightarrow> string list" where
  "split_char sep [] = [[]]"
| "split_char sep (c # cs) =
     (if c = sep then [] # split_char sep cs
      else case split_char sep cs of
             [] \<Rightarrow> [[c]]
           | x # xs \<Rightarrow> (c # x) # xs)"

text \<open>
  \<open>s.split(/\/\//)\<close>: the string is cut at each occurrence of two slashes, found from
  left to right, an occurrence starting after the end of the one before.
\<close>

fun split_slashes :: "string \<Rightarrow> string list" where
  "split_slashes [] = [[]]"
| "split_slashes [c] = [[c]]"
| "split_slashes (c # d # cs) =
     (if c = CHR ''/'' \<and> d = CHR ''/'' then [] # split_slashes cs
      else case split_slashes (d # cs) of
             [] \<Rightarrow> [[c]]
           | x # xs \<Rightarrow> (c # x) # xs)"

text \<open>\<open>xs.join(sep)\<close>\<close>

fun join :: "string \<Rightarrow> string list \<Rightarrow> string" where
  "join sep [] = []"
| "join sep [x] = x"
| "join sep (x # y # ys) = x @ sep @ join sep (y # ys)"

subsection \<open>Line classification\<close>

definition isSectionDeclaration :: "string \<Rightarrow> bool" where
  "isSectionDeclaration line = startsWith line ''@''"

text \<open>\<open>/^\s/.test(line)\<close> holds when the first character is white space.\<close>

definition isRecordDeclaration :: "string \<Rightarrow> bool" where
  "isRecordDeclaration line =
     (\<not> (case line of [] \<Rightarrow> False | c # _ \<Rightarrow> is_ws c) \<and> \<not> isSectionDeclaration line)"

subsection \<open>Record and section declarations\<close>

record RecordDeclaration =
  rd_entityName :: string
  rd_propertyName :: "string option"
  rd_actionName :: "string option"
  rd_description :: "string option"

text \<open>
  \<open>line.split(/\s+/)[0]\<close> is the text before the first white space, and
  \<open>line.split(/\/\//)[1]\<close> the second piece of the line cut at its double slashes,
  \<open>undefined\<close> when there is one piece only.
\<close>

definition parseRecordDeclaration :: "string \<Rightarrow> RecordDeclaration" where
  "parseRecordDeclaration line0 =
     (let line = trim line0;
          fullName = takeWhile (\<lambda>c. \<not> is_ws c) line;
          description = (case split_slashes line of
                           _ # d # _ \<Rightarrow> Some (trim d)
                         | _ \<Rightarrow> None);
          nameParts = split_char CHR ''.'' fullName;
          entityName = hd nameParts;
          nameParts = tl nameParts;
          actionName = (if length nameParts > 0 then Some (last nameParts) else None);
          nameParts = (if length nameParts > 0 then butlast nameParts else nameParts);
          propertyName = (if length nameParts > 0 then Some (join ''.'' nameParts) else None)
      in \<lparr>rd_entityName = entityName, rd_propertyName = propertyName,
          rd_actionName = actionName, rd_description = description\<rparr>)"

text \<open>\<open>line.match(/^@([\w_\.]+)/)\<close>\<close>

definition is_section_char :: "char \<Rightarrow> bool" where
  "is_section_char c = (is_word c \<or> c = CHR ''_'' \<or> c = CHR ''.'')"

definition parseSectionDeclaration :: "string \<Rightarrow> string option" where
  "parseSectionDeclaration line =
     (case line of
        [] \<Rightarrow> None
      | c # cs \<Rightarrow>
          if c = CHR ''@'' \<and> takeWhile is_section_char cs \<noteq> []
          then Some (takeWhile is_section_char cs) else None)"

subsection \<open>Plain objects as dictionaries\<close>

text \<open>
  \<open>parseHtmlAttributes\<close> collects the attributes in a plain object. Its own properties
  are kept here in the order of their creation. \<open>Object.entries\<close> lists the keys that
  are array indices first, in ascending numeric order, then the other keys in the order
  of creation. An array index is the decimal numeral, without leading zeros, of a number
  up to \<open>2^32 - 2\<close>.

  The object is created by \<open>{}\<close>, so its prototype is \<open>Object.prototype\<close>, from which
  it inherits the accessor \<open>__proto__\<close>. As long as it does, an assignment to the key
  \<open>__proto__\<close> creates no property: the assignment of \<open>null\<close> sets the prototype of the
  object to \<open>null\<close>, and the assignment of a string does nothing. Once the prototype is
  \<open>null\<close>, the accessor is no longer inherited and \<open>__proto__\<close> is a key like any other.
  The parser assigns nothing but strings and \<open>null\<close>.
\<close>

record JsObject =
  ownProperties :: "(string \<times> string option) list"
  nullPrototype :: bool

definition Object_empty :: JsObject where
  "Object_empty = \<lparr>ownProperties = [], nullPrototype = False\<rparr>"

definition is_digit :: "char \<Rightarrow> bool" where
  "is_digit c = (let n = (of_char c :: nat) in 48 \<le> n \<and> n \<le> 57)"

definition decimal_value :: "string \<Rightarrow> int" where
  "decimal_value s = foldl (\<lambda>n c. 10 * n + (of_char c - 48)) 0 s"

definition is_array_index :: "string \<Rightarrow> bool" where
  "is_array_index k =
     (k \<noteq> [] \<and> (\<forall>c \<in> set k. is_digit c) \<and> (hd k \<noteq> CHR ''0'' \<or> length k = 1)
      \<and> length k \<le> 10 \<and> decimal_value k \<le> 4294967294)"

definition Object_set :: "string \<Rightarrow> string option \<Rightarrow> JsObject \<Rightarrow> JsObject" where
  "Object_set k v obj =
     (if k = ''__proto__'' \<and> \<not> nullPrototype obj then
        (case v of
           None \<Rightarrow> obj\<lparr>nullPrototype := True\<rparr>
         | Some _ \<Rightarrow> obj)
      else obj\<lparr>ownProperties := Map_set k v (ownProperties obj)\<rparr>)"

definition Object_entries :: "JsObject \<Rightarrow> (string \<times> string option) list" where
  "Object_entries obj =
     sort_key (\<lambda>p. decimal_value (fst p)) (filter (\<lambda>p. is_array_index (fst p)) (ownProperties obj))
     @ filter (\<lambda>p. \<not> is_array_index (fst p)) (ownProperties obj)"

subsection \<open>Attributes\<close>

text \<open>
  The regular expression of \<open>parseHtmlAttributes\<close> is
  \<^verbatim>\<open>/(\$?[^\s=]+)(?:\s*=\s*("(?:\\"|[^"])*"|'(?:\\'|[^'])*'|\$?[^\s]*)|$)?/g\<close>.
  Each call of \<open>exec\<close> looks for the next match from where the last one ended. The
  functions below follow the matcher on the text that is left.

  \<open>quoted q s\<close> matches \<^verbatim>\<open>(?:\\q|[^q])*q\<close> on \<open>s\<close>, the text after an opening quote
  \<open>q\<close>, and gives the text between the quotes and the text after the closing one. The
  star takes an escaped quote or else a character other than the quote for as long as
  it can; when the text ends before a closing quote, the matcher goes back to the last
  escaped quote, takes its backslash alone and closes at its quote.
\<close>

definition is_name_char :: "char \<Rightarrow> bool" where
  "is_name_char c = (\<not> is_ws c \<and> c \<noteq> CHR ''='')"

fun quoted :: "char \<Rightarrow> string \<Rightarrow> (string \<times> string) option" where
  "quoted q [] = None"
| "quoted q [c] = (if c = q then Some ([], []) else None)"
| "quoted q (c # d # cs) =
     (if c = q then Some ([], d # cs)
      else if c = CHR 0x5C \<and> d = q then
        (case quoted q cs of
           Some (b, r) \<Rightarrow> Some (c # d # b, r)
         | None \<Rightarrow> Some ([c], cs))
      else
        (case quoted q (d # cs) of
           Some (b, r) \<Rightarrow> Some (c # b, r)
         | None \<Rightarrow> None))"

text \<open>
  The second group, on the text after \<^verbatim>\<open>\s*=\s*\<close>: a double-quoted value, else a
  single-quoted one, else the run of characters up to the next white space, which may be
  empty. The result is the text matched and the text after it.
\<close>

definition bare_value :: "string \<Rightarrow> string \<times> string" where
  "bare_value s = (takeWhile (\<lambda>c. \<not> is_ws c) s, dropWhile (\<lambda>c. \<not> is_ws c) s)"

definition match_value :: "string \<Rightarrow> string \<times> string" where
  "match_value s =
     (case s of
        [] \<Rightarrow> bare_value s
      | c # cs \<Rightarrow>
          if c = CHR 0x22 \<or> c = CHR 0x27 then
            (case quoted c cs of
               Some (b, r) \<Rightarrow> (c # b @ [c], r)
             | None \<Rightarrow> bare_value s)
          else bare_value s)"

text \<open>
  One match, on a text that starts with a name character: the name (group 1), the raw
  value (group 2, \<open>undefined\<close> when the part with \<open>=\<close> does not match) and the text
  after the match.
\<close>

definition match_attr :: "string \<Rightarrow> string \<times> string option \<times> string" where
  "match_attr s =
     (let nm = takeWhile is_name_char s;
          r1 = dropWhile is_name_char s;
          r2 = dropWhile is_ws r1
      in case r2 of
           [] \<Rightarrow> (nm, None, r1)
         | c # r3 \<Rightarrow>
             if c = CHR ''='' then
               (case match_value (dropWhile is_ws r3) of
                  (raw, rest) \<Rightarrow> (nm, Some raw, rest))
             else (nm, None, r1))"

text \<open>\<open>rawValue.slice(1, -1).replace(/\\(["'])/g, "$1")\<close>\<close>

fun unescape_quotes :: "string \<Rightarrow> string" where
  "unescape_quotes [] = []"
| "unescape_quotes [c] = [c]"
| "unescape_quotes (c # d # cs) =
     (if c = CHR 0x5C \<and> (d = CHR 0x22 \<or> d = CHR 0x27) then d # unescape_quotes cs
      else c # unescape_quotes (d # cs))"

definition attr_value :: "string option \<Rightarrow> string option" where
  "attr_value rawValue =
     (if truthy rawValue then
        (let raw = the rawValue in
         if (startsWith raw [CHR 0x22] \<and> endsWith raw [CHR 0x22])
            \<or> (startsWith raw [CHR 0x27] \<and> endsWith raw [CHR 0x27])
         then Some (unescape_quotes (butlast (tl raw)))
         else Some raw)
      else None)"

lemma quoted_length: "quoted q s = Some (b, r) \<Longrightarrow> length r < length s"
  by (induction q s arbitrary: b r rule: quoted.induct)
     (fastforce split: if_splits option.splits)+

lemma bare_value_length: "length (snd (bare_value s)) \<le> length s"
  by (simp add: bare_value_def length_dropWhile_le)

lemma match_value_length: "length (snd (match_value s)) \<le> length s"
proof (cases s)
  case Nil
  then show ?thesis by (simp add: match_value_def bare_value_def)
next
  case (Cons c cs)
  show ?thesis
  proof (cases "quoted c cs")
    case None
    then show ?thesis
      using bare_value_length [of s] by (simp add: match_value_def Cons)
  next
    case (Some br)
    obtain b r where br: "br = (b, r)" by (cases br)
    have "length r < length cs" using Some br quoted_length by blast
    then show ?thesis
      using bare_value_length [of s] by (simp add: match_value_def Cons Some br)
  qed
qed

lemma match_attr_length:
  assumes "s \<noteq> []" and "is_name_char (hd s)"
  shows "length (snd (snd (match_attr s))) < length s"
proof -
  obtain c cs where s: "s = c # cs" using assms(1) by (cases s) auto
  have r1: "length (dropWhile is_name_char s) < length s"
    using assms(2) by (simp add: s le_imp_less_Suc length_dropWhile_le)
  have r2: "length (dropWhile is_ws r) \<le> length r" for r
    by (rule length_dropWhile_le)
  show ?thesis
  proof (cases "dropWhile is_ws (dropWhile is_name_char s)")
    case Nil
    show ?thesis using r1
      by (simp add: match_attr_def Let_def Nil)
  next
    case (Cons d r3)
    have "length (d # r3) \<le> length (dropWhile is_name_char s)"
      using r2 [of "dropWhile is_name_char s"] Cons by simp
    then have r3: "length r3 < length s" using r1 by simp
    have "length (snd (match_value (dropWhile is_ws r3))) \<le> length r3"
      using match_value_length [of "dropWhile is_ws r3"] r2 [of r3] by linarith
    then have "length (snd (match_value (dropWhile is_ws r3))) < length s"
      using r3 by simp
    then show ?thesis using r1 Cons
      by (auto simp: match_attr_def Let_def split: prod.splits)
  qed
qed

text \<open>
  The loop of \<open>parseHtmlAttributes\<close>. The next match starts at the first name
  character. A name that starts with two slashes ends the loop: the comment is the text
  from two characters after the start of the match.
\<close>

function parseHtmlAttributes_loop ::
  "string \<Rightarrow> JsObject \<Rightarrow> JsObject \<times> string option" where
  "parseHtmlAttributes_loop s attrs =
     (let s1 = dropWhile (\<lambda>c. \<not> is_name_char c) s in
      if s1 = [] then (attrs, None)
      else case match_attr s1 of
        (nm, rawValue, rest) \<Rightarrow>
          if startsWith nm ''//'' then
            (let comment = trim (drop 2 s1) in
             (attrs, if comment = [] then None else Some comment))
          else parseHtmlAttributes_loop rest (Object_set nm (attr_value rawValue) attrs))"
  by pat_completeness auto
termination
proof (relation "measure (\<lambda>(s, attrs). length s)", goal_cases)
  case 1
  show ?case by simp
next
  case (2 s attrs s1 nm y rawValue rest)
  have "is_name_char (hd s1)"
    using 2(1,2) hd_dropWhile [of "\<lambda>c. \<not> is_name_char c" s] by auto
  then have "length (snd (snd (match_attr s1))) < length s1"
    using match_attr_length 2(2) by blast
  moreover have "rest = snd (snd (match_attr s1))"
    using 2(3,4) by (metis snd_conv)
  moreover have "length s1 \<le> length s"
    unfolding 2(1) by (rule length_dropWhile_le)
  ultimately show ?case by simp
qed

definition parseHtmlAttributes :: "string \<Rightarrow> JsObject \<times> string option" where
  "parseHtmlAttributes inputString = parseHtmlAttributes_loop inputString Object_empty"

subsection \<open>Field lines\<close>

text \<open>\<open>s.indexOf(c)\<close>, with \<^const>\<open>None\<close> for \<open>-1\<close>.\<close>

definition indexOf :: "char \<Rightarrow> string \<Rightarrow> nat option" where
  "indexOf c s = (if c \<in> set s then Some (length (takeWhile (\<lambda>x. x \<noteq> c) s)) else None)"

text \<open>\<open>s.slice(a, b)\<close> for indices \<open>0 \<le> a\<close> and \<open>0 \<le> b\<close> within the string.\<close>

definition slice :: "nat \<Rightarrow> nat \<Rightarrow> string \<Rightarrow> string" where
  "slice a b s = take (b - a) (drop a s)"

text \<open>The characters of \<open>[a-zA-Z0-9_\.]\<close>.\<close>

definition is_field_char :: "char \<Rightarrow> bool" where
  "is_field_char c = (is_word c \<or> c = CHR ''.'')"

text \<open>
  The attributes of the parsed line go to the field by \<open>setAttribute\<close>, in the order
  of \<open>Object.entries\<close>.
\<close>

definition setAttributes :: "(string \<times> string option) list \<Rightarrow> Field \<Rightarrow> Field" where
  "setAttributes entries f = foldl (\<lambda>g (n, v). setAttribute n v g) f entries"

text \<open>
  In the branch of the bracket, \<open>Object.entries(attrs)[0]\<close> is \<open>undefined\<close> when the
  text between the brackets holds no attribute, and its destructuring throws a
  \<open>TypeError\<close>.
\<close>

definition parseField :: "string \<Rightarrow> error + Field" where
  "parseField line =
     (let parsed =
        (if startsWith line ''['' then
           (case indexOf CHR '']'' line of
              None \<Rightarrow> Inl (InvalidField line)
            | Some end \<Rightarrow>
                (let f = slice 1 end line in
                 case Object_entries (fst (parseHtmlAttributes f)) of
                   [] \<Rightarrow> Inl TypeError
                 | (nm, v) # _ \<Rightarrow> Inr (nm, True, v, trim (drop (end + 1) line))))
         else
           (let fieldName = takeWhile is_field_char line in
            if fieldName = [] then Inl (InvalidField line)
            else
              (let isOpt = (case drop (length fieldName) line of
                              [] \<Rightarrow> False
                            | c # _ \<Rightarrow> c = CHR ''?'')
               in Inr (fieldName, isOpt, None,
                       trim (drop (length fieldName + (if isOpt then 1 else 0)) line)))))
      in case parsed of
           Inl e \<Rightarrow> Inl e
         | Inr (fieldName, isOpt, dv, attrsStr) \<Rightarrow>
             (let field = Field_new fieldName isOpt dv None;
                  (attrs, comment) = parseHtmlAttributes attrsStr;
                  field = setAttributes (Object_entries attrs) field
              in Inr (field\<lparr>Field.description := comment\<rparr>)))"

subsection \<open>The loop over the lines\<close>

text \<open>
  \<open>currentRecord\<close> refers to the record object that the tree holds under its full
  name. The state keeps the record, and every change of it is written to the tree under
  that name, where it replaces the entry in its place.
\<close>

record ParserState =
  tree :: Tree
  currentRecord :: "Record option"
  currentSectionName :: string

definition parseLine :: "string \<Rightarrow> ParserState \<Rightarrow> error + ParserState" where
  "parseLine line0 st =
     (if trim line0 = [] then Inr st
      else if isRecordDeclaration line0 then
        (let d = parseRecordDeclaration line0 in
         case Tree_addRecord (rd_entityName d) (rd_propertyName d) (rd_actionName d)
                (rd_description d) (tree st) of
           (Inl e, _) \<Rightarrow> Inl e
         | (Inr r, t) \<Rightarrow>
             Inr \<lparr>tree = t, currentRecord = Some r, currentSectionName = ''main''\<rparr>)
      else case currentRecord st of
        None \<Rightarrow> Inr st
      | Some r \<Rightarrow>
          (let line = trim line0 in
           if isSectionDeclaration line then
             (case parseSectionDeclaration line of
                None \<Rightarrow> Inr st
              | Some sectionName \<Rightarrow>
                  (case Record_addSection sectionName r of
                     (Inl e, _) \<Rightarrow> Inl e
                   | (Inr _, r') \<Rightarrow>
                       Inr \<lparr>tree = Tree_setRecord r' (tree st), currentRecord = Some r',
                            currentSectionName = sectionName\<rparr>))
           else if line = [] then Inr st
           else
             (case parseField line of
                Inl e \<Rightarrow> Inl e
              | Inr field \<Rightarrow>
                  (case Record_addField field (Some (currentSectionName st)) r of
                     (Inl e, _) \<Rightarrow> Inl e
                   | (Inr _, r') \<Rightarrow>
                       Inr (st\<lparr>tree := Tree_setRecord r' (tree st),
                               currentRecord := Some r'\<rparr>)))))"

fun parseLines :: "string list \<Rightarrow> ParserState \<Rightarrow> error + ParserState" where
  "parseLines [] st = Inr st"
| "parseLines (line # lines) st =
     (case parseLine line st of
        Inl e \<Rightarrow> Inl e
      | Inr st' \<Rightarrow> parseLines lines st')"

definition treeFromString :: "string \<Rightarrow> error + Tree" where
  "treeFromString treeString =
     (case parseLines (split_char CHR 0x0A treeString)
             \<lparr>tree = Tree_new, currentRecord = None, currentSectionName = ''main''\<rparr> of
        Inl e \<Rightarrow> Inl e
      | Inr st \<Rightarrow> Inr (tree st))"

section \<open>Serialization (the \<open>stringify\<close> methods)\<close>

text \<open>\<open>s.replace(/c/g, r)\<close> for a single character \<open>c\<close>.\<close>

definition replace_char :: "char \<Rightarrow> string \<Rightarrow> string \<Rightarrow> string" where
  "replace_char c r s = concat (map (\<lambda>x. if x = c then r else [x]) s)"

text \<open>\<open>s.replace(/\r?\n/g, "\\n")\<close>: a line break becomes a backslash and the letter n.\<close>

fun replace_newlines :: "string \<Rightarrow> string" where
  "replace_newlines [] = []"
| "replace_newlines [c] = (if c = CHR 0x0A then [CHR 0x5C, CHR ''n''] else [c])"
| "replace_newlines (c # d # cs) =
     (if c = CHR 0x0D \<and> d = CHR 0x0A then CHR 0x5C # CHR ''n'' # replace_newlines cs
      else if c = CHR 0x0A then CHR 0x5C # CHR ''n'' # replace_newlines (d # cs)
      else c # replace_newlines (d # cs))"

text \<open>A template literal prints \<open>null\<close> as the four letters \<open>null\<close>.\<close>

definition template :: "string option \<Rightarrow> string" where
  "template x = (case x of None \<Rightarrow> ''null'' | Some s \<Rightarrow> s)"

definition attrsToString :: "Field \<Rightarrow> string" where
  "attrsToString f =
     join '' ''
       (map (\<lambda>(n, value).
               if truthy value then
                 (let v = replace_newlines
                            (replace_char (CHR 0x27) [CHR 0x5C, CHR 0x27]
                               (replace_char (CHR 0x22) [CHR 0x5C, CHR 0x22] (the value)))
                  in n @ [CHR ''='', CHR 0x22] @ v @ [CHR 0x22])
               else n)
            (attributes f))"

text \<open>The private method \<open>#descriptionToString\<close>, the same in Field and in Record.\<close>

definition descriptionToString :: "string option \<Rightarrow> string" where
  "descriptionToString d =
     (if \<not> truthy d then []
      else trim (''// '' @ replace_newlines (replace_char (CHR 0x22) ''&quot;'' (the d))))"

definition Field_stringify :: "Field \<Rightarrow> string" where
  "Field_stringify f =
     (let nameStr = (if isOptional f
                     then ''['' @ Field.name f @ [CHR ''='', CHR 0x22] @ template (defaultValue f)
                          @ [CHR 0x22] @ '']''
                     else Field.name f);
          attrs = attrsToString f;
          desc = descriptionToString (Field.description f)
      in trim (nameStr @ ''    '' @ attrs @ '' '' @ desc))"

text \<open>\<open>stringify\<close> of a section, with the default padding of four spaces.\<close>

definition Section_stringify :: "Section \<Rightarrow> string" where
  "Section_stringify s =
     (let padding = ''    '';
          fieldsArray = map (\<lambda>(_, field). Field_stringify field) (sfields s);
          fields = join [CHR 0x0A] (map (\<lambda>field. padding @ field) fieldsArray)
      in if Section.name s = ''main'' then fields @ [CHR 0x0A]
         else padding @ ''@'' @ Section.name s @ [CHR 0x0A] @ fields @ [CHR 0x0A])"

definition Record_stringify :: "Record \<Rightarrow> string" where
  "Record_stringify r =
     (let nm = getFullName r;
          desc = descriptionToString (Record.description r);
          result = trim (nm @ ''    '' @ desc) # map (\<lambda>(_, section). Section_stringify section) (sections r)
      in join [CHR 0x0A] result)"

definition Tree_stringify :: "Tree \<Rightarrow> string" where
  "Tree_stringify t =
     join [CHR 0x0A, CHR 0x0A] (map (\<lambda>(_, record). Record_stringify record) (records t))"

section \<open>The verb classifier\<close>

text \<open>
  C4, as stated: the rules are checked on the name as it is given. The source trims the
  name first, so a name with a leading blank and the prefix \<open>get\<close> is classified GET,
  where the rules on the untrimmed name give CHECK.
\<close>

theorem C4_untrimmed_counterexample:
  "getVerbFromActionName (Some '' getUser'') = Some GET
   \<and> classifyVerb_spec (Some '' getUser'') = Some CHECK"
  by code_simp

text \<open>
  C4, amended: \<open>null\<close> and the empty name give \<open>null\<close>; any other name is trimmed and
  the rules are checked in order on the trimmed name, a name of white space only
  giving CHECK. On a name without white space at its ends the classifier is the rule
  list of the specification. The four examples hold.
\<close>

theorem C4_classifier:
  "getVerbFromActionName None = None
   \<and> getVerbFromActionName (Some []) = None
   \<and> (a \<noteq> [] \<longrightarrow> getVerbFromActionName (Some a) =
         (if trim a = [] then Some CHECK else classifyVerb_spec (Some (trim a))))
   \<and> (a \<noteq> [] \<and> trim a = a \<longrightarrow> getVerbFromActionName (Some a) = classifyVerb_spec (Some a))
   \<and> getVerbFromActionName (Some ''getUser'') = Some GET
   \<and> getVerbFromActionName (Some ''listAll'') = Some LIST
   \<and> getVerbFromActionName (Some ''frobnicate'') = Some CHECK"
proof -
  have ex: "getVerbFromActionName (Some ''getUser'') = Some GET"
    "getVerbFromActionName (Some ''listAll'') = Some LIST"
    "getVerbFromActionName (Some ''frobnicate'') = Some CHECK"
    by code_simp+
  have e: "startsWith [] p = (p = [])" for p
    by (auto simp: startsWith_def)
  have g: "a \<noteq> [] \<Longrightarrow> getVerbFromActionName (Some a) =
         (if trim a = [] then Some CHECK else classifyVerb_spec (Some (trim a)))"
    by (simp add: getVerbFromActionName_def classifyVerb_spec_def Let_def e)
  show ?thesis using ex g
    by (auto simp: getVerbFromActionName_def)
qed

theorem C4_classifier_witness:
  "getVerbFromActionName (Some ''  setX '') = Some SET \<and> trim ''  setX '' = ''setX''
   \<and> getVerbFromActionName (Some ''   '') = Some CHECK"
proof -
  have t: "trim ''  setX '' = ''setX''" "trim ''   '' = []" by code_simp+
  have c: "classifyVerb_spec (Some ''setX'') = Some SET" by code_simp
  show ?thesis
    using C4_classifier [of "''  setX ''"] C4_classifier [of "''   ''"] t c by simp
qed

section \<open>Full names\<close>

text \<open>
  The full name in the words of the specification: the entity name, then a dot and the
  property name when it is present, then a dot and the action name when it is present.
  A name is present when it is neither \<open>null\<close> nor empty. The record of
  src/tree/record.js keeps the action name in its field \<open>verb\<close>.
\<close>

definition fullName_spec :: "string \<Rightarrow> string option \<Rightarrow> string option \<Rightarrow> string" where
  "fullName_spec en pn an =
     en @ (case pn of None \<Rightarrow> [] | Some p \<Rightarrow> if p = [] then [] else ''.'' @ p)
        @ (case an of None \<Rightarrow> [] | Some a \<Rightarrow> if a = [] then [] else ''.'' @ a)"

text \<open>
  C5: the full name of every record is the one the specification derives, and the three
  records of the examples, added to an empty tree, have the full names
  \<open>user.profile.update\<close>, \<open>order.create\<close> and \<open>ping\<close>.
\<close>

theorem C5_full_name:
  "getFullName r = fullName_spec (entityName r) (propertyName r) (verb r)
   \<and> map_sum id getFullName
        (fst (Tree_addRecord ''user'' (Some ''profile'') (Some ''update'') None Tree_new))
       = Inr ''user.profile.update''
   \<and> map_sum id getFullName
        (fst (Tree_addRecord ''order'' None (Some ''create'') None Tree_new))
       = Inr ''order.create''
   \<and> map_sum id getFullName (fst (Tree_addRecord ''ping'' None None None Tree_new))
       = Inr ''ping''"
proof -
  have a: "getFullName r = fullName_spec (entityName r) (propertyName r) (verb r)"
    by (simp add: getFullName_def fullName_spec_def truthy_def Let_def split: option.splits)
  have b: "map_sum id getFullName
        (fst (Tree_addRecord ''user'' (Some ''profile'') (Some ''update'') None Tree_new))
       = Inr ''user.profile.update''"
    by code_simp
  have c: "map_sum id getFullName
        (fst (Tree_addRecord ''order'' None (Some ''create'') None Tree_new))
       = Inr ''order.create''"
    by code_simp
  have d: "map_sum id getFullName (fst (Tree_addRecord ''ping'' None None None Tree_new))
       = Inr ''ping''"
    by code_simp
  show ?thesis using a b c d by simp
qed

section \<open>Field lines and record descriptions\<close>

text \<open>
  C7: the field line \<open>[port="8080"] min="1" max="65535" // Port number\<close> parses to the
  optional field \<open>port\<close> with the default \<open>8080\<close>, the attributes \<open>min\<close> and \<open>max\<close> in
  that order and the description \<open>Port number\<close>; the field line
  \<open>name? // optional field\<close> parses to the optional field \<open>name\<close> without default and
  without attributes, with the description \<open>optional field\<close>.
\<close>

theorem C7_field_lines:
  "parseField (''[port='' @ [CHR 0x22] @ ''8080'' @ [CHR 0x22] @ ''] min='' @ [CHR 0x22] @ ''1''
                @ [CHR 0x22] @ '' max='' @ [CHR 0x22] @ ''65535'' @ [CHR 0x22] @ '' // Port number'')
     = Inr \<lparr>Field.name = ''port'',
            attributes = [(''min'', Some ''1''), (''max'', Some ''65535'')],
            isOptional = True, defaultValue = Some ''8080'',
            description = Some ''Port number''\<rparr>
   \<and> parseField ''name? // optional field''
     = Inr \<lparr>Field.name = ''name'', attributes = [], isOptional = True,
            defaultValue = None, description = Some ''optional field''\<rparr>"
  by code_simp

text \<open>
  C8 says that the description of a record is all of the text after the first double
  slash. On the line \<open>a // x // y\<close> the record parser keeps \<open>x\<close> only, the piece between
  the first and the second double slash, where the field parser keeps \<open>x // y\<close> on the
  field line \<open>f // x // y\<close>.
\<close>

theorem C8_description_cut:
  "rd_description (parseRecordDeclaration ''a // x // y'') = Some ''x''
   \<and> map_sum id Field.description (parseField ''f // x // y'') = Inr (Some ''x // y'')"
  by code_simp

section \<open>The verb of a record\<close>

text \<open>
  The record of the built file dist/meta-tree.esm.js differs from the one of
  src/tree/record.js: its constructor takes the action name, stores it as
  \<open>actionName\<close>, sets \<open>verb\<close> to the verb of that name and checks the entity and the
  property name only.
\<close>

record RecordEsm =
  esm_entityName :: string
  esm_propertyName :: "string option"
  esm_actionName :: "string option"
  esm_verb :: "verbKind option"
  esm_sections :: "(string \<times> Section) list"
  esm_description :: "string option"

definition RecordEsm_new ::
  "string \<Rightarrow> string option \<Rightarrow> string option \<Rightarrow> string option \<Rightarrow> error + RecordEsm" where
  "RecordEsm_new en pn an desc =
     (if has_ws en then Inl (EntityNameSpaces en)
      else if length en = 0 then Inl EntityNameEmpty
      else if truthy pn \<and> has_ws (the pn) then Inl (PropertyNameSpaces (the pn))
      else if truthy pn \<and> length (the pn) = 0 then Inl PropertyNameEmpty
      else case Section_new ''main'' of
             Inl e \<Rightarrow> Inl e
           | Inr mainSection \<Rightarrow>
               Inr \<lparr>esm_entityName = en, esm_propertyName = pn, esm_actionName = an,
                    esm_verb = getVerbFromActionName an,
                    esm_sections = Map_set ''main'' mainSection [],
                    esm_description = desc\<rparr>)"

text \<open>The record of the end-to-end example, with its two field lines, and its tree.\<close>

definition profile_update_text :: string where
  "profile_update_text =
     ''user.profile.update    // Updates a profile'' @ [CHR 0x0A]
     @ ''    username    maxLength='' @ [CHR 0x22] @ ''32'' @ [CHR 0x22] @ [CHR 0x0A]
     @ ''    password?''"

definition profile_update_tree :: Tree where
  "profile_update_tree =
     \<lparr>records =
        [(''user.profile.update'',
          \<lparr>entityName = ''user'', propertyName = Some ''profile'', verb = Some ''update'',
           sections =
             [(''main'',
               \<lparr>Section.name = ''main'',
                sfields =
                  [(''username'',
                    \<lparr>Field.name = ''username'', attributes = [(''maxLength'', Some ''32'')],
                     isOptional = False, defaultValue = None, description = None\<rparr>),
                   (''password'',
                    \<lparr>Field.name = ''password'', attributes = [],
                     isOptional = True, defaultValue = None, description = None\<rparr>)]\<rparr>)],
           description = Some ''Updates a profile''\<rparr>)]\<rparr>"

text \<open>
  C2, as stated: parsing the example gives a record with the verb SET. The parser of
  src gives the record the verb \<open>update\<close>, the action segment itself, and the classifier
  maps \<open>update\<close> to CHECK.
\<close>

theorem C2_verb_counterexample:
  "treeFromString profile_update_text = Inr profile_update_tree
   \<and> map (verb \<circ> snd) (records profile_update_tree) = [Some ''update'']
   \<and> getVerbFromActionName (Some ''update'') = Some CHECK
   \<and> getVerbFromActionName (Some ''update'') \<noteq> Some SET"
  by code_simp

lemma Record_new_verb: "Record_new en pn vb d = Inr r \<Longrightarrow> verb r = vb"
  by (auto simp: Record_new_def Section_new_def split: if_splits sum.splits)

lemma RecordEsm_new_verb:
  "RecordEsm_new en pn an d = Inr r \<Longrightarrow>
     esm_actionName r = an \<and> esm_verb r = getVerbFromActionName an"
  by (auto simp: RecordEsm_new_def Section_new_def split: if_splits sum.splits)

text \<open>
  C2, amended: the constructor of src/tree/record.js stores its third argument as the
  verb, unchanged; the constructor of dist/meta-tree.esm.js stores it as the action name
  and derives the verb from it by the classifier. Parsing the example gives one record
  with the entity name \<open>user\<close>, the property name \<open>profile\<close>, the action name \<open>update\<close>
  (the verb of the record of src) and the description \<open>Updates a profile\<close>; the verb
  that the classifier derives from \<open>update\<close> is CHECK.
\<close>

theorem C2_verb:
  "(Record_new en pn vb d = Inr r \<longrightarrow> verb r = vb)
   \<and> (RecordEsm_new en pn an d = Inr r' \<longrightarrow>
        esm_actionName r' = an \<and> esm_verb r' = getVerbFromActionName an)
   \<and> treeFromString profile_update_text = Inr profile_update_tree
   \<and> parseRecordDeclaration ''user.profile.update    // Updates a profile''
       = \<lparr>rd_entityName = ''user'', rd_propertyName = Some ''profile'',
          rd_actionName = Some ''update'', rd_description = Some ''Updates a profile''\<rparr>
   \<and> map_sum id esm_verb
         (RecordEsm_new ''user'' (Some ''profile'') (Some ''update'') (Some ''Updates a profile''))
       = Inr (Some CHECK)"
proof -
  have a: "treeFromString profile_update_text = Inr profile_update_tree" by code_simp
  have b: "parseRecordDeclaration ''user.profile.update    // Updates a profile''
       = \<lparr>rd_entityName = ''user'', rd_propertyName = Some ''profile'',
          rd_actionName = Some ''update'', rd_description = Some ''Updates a profile''\<rparr>"
    by code_simp
  have c: "map_sum id esm_verb
         (RecordEsm_new ''user'' (Some ''profile'') (Some ''update'') (Some ''Updates a profile''))
       = Inr (Some CHECK)"
    by code_simp
  show ?thesis using a b c Record_new_verb RecordEsm_new_verb by blast
qed

theorem C2_verb_witness:
  "Record_new ''user'' (Some ''profile'') (Some ''update'') None
     = Inr \<lparr>entityName = ''user'', propertyName = Some ''profile'', verb = Some ''update'',
            sections = [(''main'', \<lparr>Section.name = ''main'', sfields = []\<rparr>)],
            description = None\<rparr>
   \<and> verb \<lparr>entityName = ''user'', propertyName = Some ''profile'', verb = Some ''update'',
            sections = [(''main'', \<lparr>Section.name = ''main'', sfields = []\<rparr>)],
            description = None\<rparr> = Some ''update''
   \<and> RecordEsm_new ''user'' (Some ''profile'') (Some ''update'') None
     = Inr \<lparr>esm_entityName = ''user'', esm_propertyName = Some ''profile'',
            esm_actionName = Some ''update'', esm_verb = Some CHECK,
            esm_sections = [(''main'', \<lparr>Section.name = ''main'', sfields = []\<rparr>)],
            esm_description = None\<rparr>"
proof -
  have a: "Record_new ''user'' (Some ''profile'') (Some ''update'') None
     = Inr \<lparr>entityName = ''user'', propertyName = Some ''profile'', verb = Some ''update'',
            sections = [(''main'', \<lparr>Section.name = ''main'', sfields = []\<rparr>)],
            description = None\<rparr>"
    by code_simp
  have b: "RecordEsm_new ''user'' (Some ''profile'') (Some ''update'') None
     = Inr \<lparr>esm_entityName = ''user'', esm_propertyName = Some ''profile'',
            esm_actionName = Some ''update'', esm_verb = Some CHECK,
            esm_sections = [(''main'', \<lparr>Section.name = ''main'', sfields = []\<rparr>)],
            esm_description = None\<rparr>"
    by code_simp
  show ?thesis
    using a b C2_verb [of "''user''" "Some ''profile''" "Some ''update''" None
        "\<lparr>entityName = ''user'', propertyName = Some ''profile'', verb = Some ''update'',
            sections = [(''main'', \<lparr>Section.name = ''main'', sfields = []\<rparr>)],
            description = None\<rparr>" "Some ''update''"
        "\<lparr>esm_entityName = ''user'', esm_propertyName = Some ''profile'',
            esm_actionName = Some ''update'', esm_verb = Some CHECK,
            esm_sections = [(''main'', \<lparr>Section.name = ''main'', sfields = []\<rparr>)],
            esm_description = None\<rparr>"]
    by simp
qed

section \<open>Example values\<close>

text \<open>
  The record that \<open>new Record("a", null, null)\<close> builds, a field \<open>x\<close>, the section
  \<open>main\<close> holding it, the record with that section and the tree with that record.
\<close>

definition record_a :: Record where
  "record_a =
     \<lparr>entityName = ''a'', propertyName = None, verb = None,
      sections = [(''main'', \<lparr>Section.name = ''main'', sfields = []\<rparr>)],
      description = None\<rparr>"

definition field_x :: Field where
  "field_x =
     \<lparr>Field.name = ''x'', attributes = [], isOptional = False, defaultValue = None,
      description = None\<rparr>"

definition section_main_x :: Section where
  "section_main_x = \<lparr>Section.name = ''main'', sfields = [(''x'', field_x)]\<rparr>"

definition record_a_x :: Record where
  "record_a_x =
     \<lparr>entityName = ''a'', propertyName = None, verb = None,
      sections = [(''main'', section_main_x)], description = None\<rparr>"

definition tree_a_x :: Tree where
  "tree_a_x = \<lparr>records = [(''a'', record_a_x)]\<rparr>"

section \<open>Duplicate names\<close>

lemma Map_set_same: "Map_get k m = Some v \<Longrightarrow> Map_set k v m = m"
  by (induction m) (auto simp: Map_get_def split: if_splits)

lemma Map_has_set: "Map_has k (Map_set k' v m) = (k = k' \<or> Map_has k m)"
  by (induction m) (auto simp: Map_has_def)

lemma Map_has_delete: "Map_has k (Map_delete k' m) = (k \<noteq> k' \<and> Map_has k m)"
  by (auto simp: Map_has_def Map_delete_def)

lemma Map_get_set: "Map_get k (Map_set k v m) = Some v"
  by (induction m) (auto simp: Map_get_def)

lemma Map_get_has: "Map_get k m = Some v \<Longrightarrow> Map_has k m"
  by (auto simp: Map_get_def Map_has_def dest: map_of_SomeD intro: rev_image_eqI)

text \<open>
  C3: \<open>Tree.addRecord\<close> with a full name that the tree holds, \<open>Record.addSection\<close>
  with a section name that the record holds and \<open>Section.addField\<close> with a field name
  that the section holds each throw, and the tree, the record or the section is after
  the call what it was before. The same holds for \<open>Record.addField\<close> on a section that
  holds the field name.
\<close>

theorem C3_duplicates:
  "(Record_new en pn vb d = Inr r \<and> Map_has (getFullName r) (records t) \<longrightarrow>
      Tree_addRecord en pn vb d t = (Inl (RecordExists (getFullName r)), t))
   \<and> (Record_hasSection n rc \<longrightarrow> Record_addSection n rc = (Inl (SectionExists n), rc))
   \<and> (Section_hasField (Field.name f) s \<longrightarrow>
        Section_addField f s = (Inl (FieldExists (Field.name f)), s))
   \<and> (Map_get (sectionNameOrMain sn) (sections rc) = Some s \<and> Section_hasField (Field.name f) s \<longrightarrow>
        Record_addField f sn rc = (Inl (FieldExists (Field.name f)), rc))"
proof -
  have a: "Record_new en pn vb d = Inr r \<and> Map_has (getFullName r) (records t) \<longrightarrow>
      Tree_addRecord en pn vb d t = (Inl (RecordExists (getFullName r)), t)"
    by (simp add: Tree_addRecord_def Let_def)
  have b: "Record_hasSection n rc \<longrightarrow> Record_addSection n rc = (Inl (SectionExists n), rc)"
    by (simp add: Record_hasSection_def Record_addSection_def)
  have c: "Section_hasField (Field.name f) s \<longrightarrow>
        Section_addField f s = (Inl (FieldExists (Field.name f)), s)"
    by (simp add: Section_addField_def)
  have d: "Map_get (sectionNameOrMain sn) (sections rc) = Some s \<and> Section_hasField (Field.name f) s \<longrightarrow>
        Record_addField f sn rc = (Inl (FieldExists (Field.name f)), rc)"
    by (simp add: Record_addField_def Let_def Section_addField_def Map_set_same)
  show ?thesis using a b c d by blast
qed

theorem C3_duplicates_witness:
  "Tree_addRecord ''a'' None None None tree_a_x = (Inl (RecordExists ''a''), tree_a_x)
   \<and> Record_addSection ''main'' record_a_x = (Inl (SectionExists ''main''), record_a_x)
   \<and> Section_addField field_x section_main_x = (Inl (FieldExists ''x''), section_main_x)
   \<and> Record_addField field_x None record_a_x = (Inl (FieldExists ''x''), record_a_x)"
proof -
  have h1: "Record_new ''a'' None None None = Inr record_a" by code_simp
  have h2: "Map_has (getFullName record_a) (records tree_a_x)" by code_simp
  have h3: "Record_hasSection ''main'' record_a_x" by code_simp
  have h4: "Section_hasField (Field.name field_x) section_main_x" by code_simp
  have h5: "Map_get (sectionNameOrMain None) (sections record_a_x) = Some section_main_x"
    by code_simp
  have n: "getFullName record_a = ''a''" "Field.name field_x = ''x''" by code_simp+
  show ?thesis
    using C3_duplicates [where en = "''a''" and pn = None and vb = None and d = None
        and r = record_a and t = tree_a_x and n = "''main''" and rc = record_a_x
        and f = field_x and s = section_main_x and sn = None]
      h1 h2 h3 h4 h5 n
    by simp
qed

section \<open>The section main\<close>

text \<open>
  A sequence of calls on a record. A call that throws leaves the record as the model of
  the method returns it, and the sequence goes on, as it does for a caller that catches
  the error.
\<close>

datatype RecordOp =
    AddSection string
  | DeleteSection string
  | SetSection Section
  | AddField Field "string option"
  | SetField Field "string option"
  | DeleteField string "string option"

fun applyOp :: "RecordOp \<Rightarrow> Record \<Rightarrow> Record" where
  "applyOp (AddSection n) r = snd (Record_addSection n r)"
| "applyOp (DeleteSection n) r = Record_deleteSection n r"
| "applyOp (SetSection s) r = Record_setSection s r"
| "applyOp (AddField f sn) r = snd (Record_addField f sn r)"
| "applyOp (SetField f sn) r = snd (Record_setField f sn r)"
| "applyOp (DeleteField fn sn) r = Record_deleteField fn sn r"

definition applyOps :: "RecordOp list \<Rightarrow> Record \<Rightarrow> Record" where
  "applyOps ops r = foldl (\<lambda>r' op. applyOp op r') r ops"

lemma Record_new_main: "Record_new en pn vb d = Inr r \<Longrightarrow> Record_hasSection ''main'' r"
  by (auto simp: Record_new_def Section_new_def Record_hasSection_def Map_has_def
           split: if_splits sum.splits)

lemma addSection_has:
  "Record_hasSection k r \<Longrightarrow> Record_hasSection k (snd (Record_addSection n r))"
  by (auto simp: Record_addSection_def Record_hasSection_def Map_has_set split: sum.splits)

lemma addField_has:
  "Record_hasSection k r \<Longrightarrow> Record_hasSection k (snd (Record_addField f sn r))"
  by (auto simp: Record_addField_def Record_addSection_def Record_hasSection_def Map_has_set
                 Let_def split: option.splits sum.splits prod.splits if_splits)

lemma setField_has:
  "Record_hasSection k r \<Longrightarrow> Record_hasSection k (snd (Record_setField f sn r))"
  by (auto simp: Record_setField_def Record_addSection_def Record_hasSection_def Map_has_set
                 Let_def split: option.splits sum.splits prod.splits if_splits)

lemma applyOp_main:
  assumes "Record_hasSection ''main'' r" and "op \<noteq> DeleteSection ''main''"
  shows "Record_hasSection ''main'' (applyOp op r)"
proof (cases op)
  case (AddSection n)
  then show ?thesis using assms(1) addSection_has by simp
next
  case (DeleteSection n)
  then show ?thesis using assms
    by (simp add: Record_deleteSection_def Record_hasSection_def Map_has_delete)
next
  case (SetSection s)
  then show ?thesis using assms(1)
    by (simp add: Record_setSection_def Record_hasSection_def Map_has_set)
next
  case (AddField f sn)
  then show ?thesis using assms(1) addField_has by simp
next
  case (SetField f sn)
  then show ?thesis using assms(1) setField_has by simp
next
  case (DeleteField fn sn)
  then show ?thesis using assms(1)
    by (simp add: Record_deleteField_def Record_hasSection_def Map_has_set Let_def
             split: option.splits)
qed

lemma applyOps_main:
  "Record_hasSection ''main'' r \<Longrightarrow> DeleteSection ''main'' \<notin> set ops \<Longrightarrow>
     Record_hasSection ''main'' (applyOps ops r)"
  unfolding applyOps_def
  by (induction ops arbitrary: r) (auto simp: applyOp_main)

lemma addField_default_target:
  assumes "Record_addField f None r = (Inr (), r')"
  shows "\<exists>s. Map_get ''main'' (sections r') = Some s \<and> Map_get (Field.name f) (sfields s) = Some f"
  using assms
  by (auto simp: Record_addField_def sectionNameOrMain_def Let_def Section_addField_def
                 Record_addSection_def Map_get_set
           split: option.splits sum.splits prod.splits if_splits)

text \<open>
  C6, as stated: the section \<open>main\<close> exists after every sequence of operations.
  \<open>deleteSection("main")\<close> on a new record removes it.
\<close>

theorem C6_main_deleted_counterexample:
  "Record_new ''a'' None None None = Inr record_a
   \<and> \<not> Record_hasSection ''main'' (applyOps [DeleteSection ''main''] record_a)"
  by code_simp

text \<open>
  C6, amended: a section named \<open>main\<close> exists at construction and after every sequence
  of \<open>addSection\<close>, \<open>deleteSection\<close>, \<open>setSection\<close>, \<open>addField\<close>, \<open>setField\<close> and
  \<open>deleteField\<close> that does not call \<open>deleteSection("main")\<close>. A field operation that
  leaves the section name out is the operation on the section \<open>main\<close>, and a field added
  so is held by the section that the record keeps under \<open>main\<close>.
\<close>

theorem C6_main_section:
  "(Record_new en pn vb d = Inr r \<longrightarrow>
      Record_hasSection ''main'' r
      \<and> (DeleteSection ''main'' \<notin> set ops \<longrightarrow> Record_hasSection ''main'' (applyOps ops r)))
   \<and> Record_addField f None rc = Record_addField f (Some ''main'') rc
   \<and> Record_setField f None rc = Record_setField f (Some ''main'') rc
   \<and> Record_deleteField fn None rc = Record_deleteField fn (Some ''main'') rc
   \<and> (Record_addField f None rc = (Inr (), rc') \<longrightarrow>
        (\<exists>s. Map_get ''main'' (sections rc') = Some s
              \<and> Map_get (Field.name f) (sfields s) = Some f))"
proof -
  have a: "Record_new en pn vb d = Inr r \<longrightarrow>
      Record_hasSection ''main'' r
      \<and> (DeleteSection ''main'' \<notin> set ops \<longrightarrow> Record_hasSection ''main'' (applyOps ops r))"
    using Record_new_main applyOps_main by blast
  have b: "Record_addField f None rc = Record_addField f (Some ''main'') rc"
    "Record_setField f None rc = Record_setField f (Some ''main'') rc"
    "Record_deleteField fn None rc = Record_deleteField fn (Some ''main'') rc"
    by (simp_all add: Record_addField_def Record_setField_def Record_deleteField_def
          sectionNameOrMain_def)
  have c: "Record_addField f None rc = (Inr (), rc') \<longrightarrow>
        (\<exists>s. Map_get ''main'' (sections rc') = Some s
              \<and> Map_get (Field.name f) (sfields s) = Some f)"
    using addField_default_target by blast
  show ?thesis using a b c by blast
qed

theorem C6_main_section_witness:
  "Record_new ''a'' None None None = Inr record_a
   \<and> Record_hasSection ''main'' record_a
   \<and> Record_hasSection ''main''
        (applyOps [AddSection ''s'', DeleteSection ''s'', AddField field_x None,
                   DeleteField ''x'' None, SetSection section_main_x,
                   SetField field_x (Some ''t'')] record_a)
   \<and> Record_addField field_x None record_a = (Inr (), record_a_x)
   \<and> (\<exists>s. Map_get ''main'' (sections record_a_x) = Some s
            \<and> Map_get (Field.name field_x) (sfields s) = Some field_x)"
proof -
  have h1: "Record_new ''a'' None None None = Inr record_a" by code_simp
  have h2: "DeleteSection ''main'' \<notin> set [AddSection ''s'', DeleteSection ''s'',
              AddField field_x None, DeleteField ''x'' None, SetSection section_main_x,
              SetField field_x (Some ''t'')]"
    by simp
  have h3: "Record_addField field_x None record_a = (Inr (), record_a_x)" by code_simp
  show ?thesis
    using C6_main_section [where en = "''a''" and pn = None and vb = None and d = None
        and r = record_a and f = field_x and rc = record_a and rc' = record_a_x
        and ops = "[AddSection ''s'', DeleteSection ''s'', AddField field_x None,
                    DeleteField ''x'' None, SetSection section_main_x,
                    SetField field_x (Some ''t'')]"]
      h1 h2 h3
    by simp
qed

section \<open>Field names\<close>

text \<open>A name that is not empty and holds no white space.\<close>

definition name_ok :: "string \<Rightarrow> bool" where
  "name_ok n = (n \<noteq> [] \<and> \<not> has_ws n)"

lemma match_attr_name: "fst (match_attr s) = takeWhile is_name_char s"
  by (simp add: match_attr_def Let_def split: list.splits prod.splits)

lemma takeWhile_name_ok:
  assumes "s \<noteq> []" and "is_name_char (hd s)"
  shows "name_ok (takeWhile is_name_char s)"
proof -
  obtain c cs where s: "s = c # cs" using assms(1) by (cases s) auto
  have "takeWhile is_name_char s \<noteq> []" using assms(2) by (simp add: s)
  moreover have "\<forall>x \<in> set (takeWhile is_name_char s). \<not> is_ws x"
    using set_takeWhileD [of _ is_name_char s] by (auto simp: is_name_char_def)
  ultimately show ?thesis by (auto simp: name_ok_def has_ws_def)
qed

lemma set_Map_set: "set (Map_set k v m) \<subseteq> insert (k, v) (set m)"
  by (induction m) auto

lemma Object_set_keys:
  assumes "\<forall>p \<in> set (ownProperties obj). name_ok (fst p)" and "name_ok k"
  shows "\<forall>p \<in> set (ownProperties (Object_set k v obj)). name_ok (fst p)"
  using assms set_Map_set [of k v "ownProperties obj"]
  by (auto simp: Object_set_def split: option.splits)

lemma loop_keys:
  "\<forall>p \<in> set (ownProperties attrs). name_ok (fst p) \<Longrightarrow>
     \<forall>p \<in> set (ownProperties (fst (parseHtmlAttributes_loop s attrs))). name_ok (fst p)"
proof (induction s attrs rule: parseHtmlAttributes_loop.induct)
  case (1 s attrs)
  define s1 where "s1 = dropWhile (\<lambda>c. \<not> is_name_char c) s"
  show ?case
  proof (cases "s1 = []")
    case True
    then show ?thesis using 1(2)
      by (subst parseHtmlAttributes_loop.simps) (simp add: s1_def [symmetric] Let_def)
  next
    case False
    obtain nm raw rest where m: "match_attr s1 = (nm, raw, rest)" by (cases "match_attr s1")
    have "is_name_char (hd s1)"
      using False hd_dropWhile [of "\<lambda>c. \<not> is_name_char c" s] by (auto simp: s1_def)
    then have nm: "name_ok nm"
      using takeWhile_name_ok [OF False] match_attr_name [of s1] m by simp
    show ?thesis
    proof (cases "startsWith nm ''//''")
      case True
      then show ?thesis using 1(2) False m
        by (subst parseHtmlAttributes_loop.simps) (simp add: s1_def [symmetric] Let_def)
    next
      case nsl: False
      have "\<forall>p \<in> set (ownProperties (Object_set nm (attr_value raw) attrs)). name_ok (fst p)"
        using Object_set_keys [OF 1(2) nm] .
      then have "\<forall>p \<in> set (ownProperties (fst (parseHtmlAttributes_loop rest
                   (Object_set nm (attr_value raw) attrs)))). name_ok (fst p)"
        using 1(1) [OF s1_def False m [symmetric] refl nsl] by simp
      then show ?thesis using False m nsl
        by (subst parseHtmlAttributes_loop.simps) (simp add: s1_def [symmetric] Let_def)
    qed
  qed
qed

lemma set_Object_entries: "set (Object_entries obj) = set (ownProperties obj)"
  by (auto simp: Object_entries_def)

lemma setAttributes_name: "Field.name (setAttributes es f) = Field.name f"
  unfolding setAttributes_def
  by (induction es arbitrary: f) (auto simp: setAttribute_def)

lemma parseField_name:
  assumes "parseField line = Inr f"
  shows "name_ok (Field.name f)"
proof (cases "startsWith line ''[''")
  case True
  from assms True obtain e nm v rest where
    e: "indexOf CHR '']'' line = Some e"
    and oe: "Object_entries (fst (parseHtmlAttributes (slice 1 e line))) = (nm, v) # rest"
    and f: "Field.name f = nm"
    by (auto simp: parseField_def Let_def setAttributes_name Field_new_def
             split: option.splits list.splits sum.splits prod.splits if_splits)
  have "(nm, v) \<in> set (ownProperties (fst (parseHtmlAttributes (slice 1 e line))))"
    using oe set_Object_entries [of "fst (parseHtmlAttributes (slice 1 e line))"] by auto
  then show ?thesis
    using loop_keys [of Object_empty "slice 1 e line"] f
    by (auto simp: parseHtmlAttributes_def Object_empty_def)
next
  case False
  from assms False have ne: "takeWhile is_field_char line \<noteq> []"
    and f: "Field.name f = takeWhile is_field_char line"
    by (auto simp: parseField_def Let_def setAttributes_name Field_new_def
             split: option.splits list.splits sum.splits prod.splits if_splits)
  have "\<not> is_ws c" if "is_field_char c" for c
    using that by (auto simp: is_field_char_def is_word_def is_ws_def Let_def)
  then have "\<forall>x \<in> set (takeWhile is_field_char line). \<not> is_ws x"
    using set_takeWhileD [of _ is_field_char line] by blast
  then show ?thesis using ne f by (auto simp: name_ok_def has_ws_def)
qed

text \<open>
  C9, as stated: every field has such a name, also one built by a caller from any
  string. The constructor keeps the empty string and a string with a blank.
\<close>

theorem C9_constructor_counterexample:
  "Field.name (Field_new [] False None None) = []
   \<and> has_ws (Field.name (Field_new ''a b'' False None None))"
  by code_simp

text \<open>
  C9, amended: every field that the parser creates from a field line has a name that is
  not empty and holds no white space; the constructor checks nothing and keeps the
  string it is given as the name.
\<close>

theorem C9_parsed_field_name:
  "(parseField line = Inr f \<longrightarrow> Field.name f \<noteq> [] \<and> \<not> has_ws (Field.name f))
   \<and> Field.name (Field_new n opt dv desc) = n"
  using parseField_name [of line f] by (auto simp: name_ok_def Field_new_def)

text \<open>
  Two field lines: \<open>[port=1] x\<close>, and \<open>[__proto__ __proto__=5]\<close>, where the bare
  \<open>__proto__\<close> sets the prototype of the attribute object to \<open>null\<close> and the second
  assignment creates the property that names the field.
\<close>

theorem C9_parsed_field_name_witness:
  "parseField ''[port=1] x''
     = Inr \<lparr>Field.name = ''port'', attributes = [(''x'', None)], isOptional = True,
            defaultValue = Some ''1'', description = None\<rparr>
   \<and> \<not> has_ws ''port''
   \<and> parseField ''[__proto__ __proto__=5]''
     = Inr \<lparr>Field.name = ''__proto__'', attributes = [], isOptional = True,
            defaultValue = Some ''5'', description = None\<rparr>
   \<and> \<not> has_ws ''__proto__''"
proof -
  have h: "parseField ''[port=1] x''
     = Inr \<lparr>Field.name = ''port'', attributes = [(''x'', None)], isOptional = True,
            defaultValue = Some ''1'', description = None\<rparr>"
    by code_simp
  have p: "parseField ''[__proto__ __proto__=5]''
     = Inr \<lparr>Field.name = ''__proto__'', attributes = [], isOptional = True,
            defaultValue = Some ''5'', description = None\<rparr>"
    by code_simp
  show ?thesis
    using h p
      C9_parsed_field_name [of "''[port=1] x''"
        "\<lparr>Field.name = ''port'', attributes = [(''x'', None)], isOptional = True,
            defaultValue = Some ''1'', description = None\<rparr>"]
      C9_parsed_field_name [of "''[__proto__ __proto__=5]''"
        "\<lparr>Field.name = ''__proto__'', attributes = [], isOptional = True,
            defaultValue = Some ''5'', description = None\<rparr>"]
    by simp
qed

section \<open>Section lines without a name\<close>

lemma trim_Cons:
  assumes "trim s = c # cs"
  shows "\<exists>t. dropWhile is_ws s = c # t"
proof -
  define d where "d = dropWhile is_ws s"
  have t: "rev (dropWhile is_ws (rev d)) = c # cs" using assms by (simp add: trim_def d_def)
  then have "d \<noteq> []" by auto
  then obtain x d' where d: "d = x # d'" by (cases d) auto
  have "\<not> is_ws x" using d by (simp add: d_def dropWhile_eq_Cons_conv)
  then have "dropWhile is_ws (rev d' @ [x]) = dropWhile is_ws (rev d') @ [x]"
    by (simp add: dropWhile_append)
  then have "rev (dropWhile is_ws (rev d)) = x # rev (dropWhile is_ws (rev d'))"
    by (simp add: d)
  then have "x = c" using t by simp
  then show ?thesis using d by (simp add: d_def)
qed

lemma at_line_not_record:
  assumes "trim line = CHR ''@'' # rest"
  shows "\<not> isRecordDeclaration line"
proof -
  obtain t where t: "dropWhile is_ws line = CHR ''@'' # t" using trim_Cons [OF assms] by blast
  show ?thesis
  proof (cases line)
    case Nil
    then show ?thesis using t by simp
  next
    case (Cons x xs)
    show ?thesis
    proof (cases "is_ws x")
      case True
      then show ?thesis by (simp add: isRecordDeclaration_def Cons)
    next
      case False
      then have "x = CHR ''@''" using t by (simp add: Cons)
      then show ?thesis
        by (simp add: isRecordDeclaration_def isSectionDeclaration_def startsWith_def Cons)
    qed
  qed
qed

lemma parseLine_at_skip:
  assumes "trim line = CHR ''@'' # rest" and "rest = [] \<or> \<not> is_section_char (hd rest)"
  shows "parseLine line st = Inr st"
proof -
  have nr: "\<not> isRecordDeclaration line" using at_line_not_record [OF assms(1)] .
  have tw: "takeWhile is_section_char rest = []"
    using assms(2) by (cases rest) auto
  have ps: "parseSectionDeclaration (CHR ''@'' # rest) = None"
    by (simp add: parseSectionDeclaration_def tw)
  have sd: "isSectionDeclaration (CHR ''@'' # rest)"
    by (simp add: isSectionDeclaration_def startsWith_def)
  show ?thesis
    by (simp add: parseLine_def assms(1) nr Let_def ps sd split: option.splits)
qed

lemma parseLines_append:
  "parseLines (pre @ post) st =
     (case parseLines pre st of Inl e \<Rightarrow> Inl e | Inr st' \<Rightarrow> parseLines post st')"
  by (induction pre arbitrary: st) (auto split: sum.splits)

text \<open>
  C10: a line that after trimming starts with \<open>@\<close>, with no character of
  \<open>[\w_\.]\<close> right after it, leaves the state of the parser as it is: no error, no new
  section, the same current section; the lines parse as they do without it. This holds
  in every state, so also while a record is open.
\<close>

theorem C10_at_line_skipped:
  assumes "trim line = CHR ''@'' # rest" and "rest = [] \<or> \<not> is_section_char (hd rest)"
  shows "parseLine line st = Inr st
         \<and> parseLines (pre @ line # post) st = parseLines (pre @ post) st"
proof -
  have a: "parseLine line st' = Inr st'" for st'
    using parseLine_at_skip [OF assms] .
  have "parseLines (pre @ line # post) st = parseLines (pre @ post) st"
    by (simp add: parseLines_append a split: sum.splits)
  then show ?thesis using a by simp
qed

text \<open>The state of the parser after the record line \<open>a\<close>.\<close>

definition open_record_state :: ParserState where
  "open_record_state =
     \<lparr>tree = \<lparr>records = [(''a'', record_a)]\<rparr>,
      currentRecord = Some record_a,
      currentSectionName = ''main''\<rparr>"

theorem C10_at_line_skipped_witness:
  "trim ''  @ returns'' = CHR ''@'' # '' returns''
   \<and> parseLine ''  @ returns'' open_record_state = Inr open_record_state
   \<and> parseLines [''a'', ''  @ returns'', ''  x'']
        \<lparr>tree = Tree_new, currentRecord = None, currentSectionName = ''main''\<rparr>
     = parseLines [''a'', ''  x'']
        \<lparr>tree = Tree_new, currentRecord = None, currentSectionName = ''main''\<rparr>"
proof -
  have t: "trim ''  @ returns'' = CHR ''@'' # '' returns''" by code_simp
  have h: "'' returns'' = [] \<or> \<not> is_section_char (hd '' returns'')" by code_simp
  show ?thesis
    using t C10_at_line_skipped [OF t h, of open_record_state "[''a'']" "[''  x'']"]
      C10_at_line_skipped [OF t h, of "\<lparr>tree = Tree_new, currentRecord = None, currentSectionName = ''main''\<rparr>" "[''a'']" "[''  x'']"]
    by simp
qed

section \<open>Round trip\<close>

text \<open>
  The serialization of a tree, parsed again, gives the tree back up to its descriptions,
  for the trees described below. The proof follows the serializer: a field line parses to
  its field, the lines of a section to the section, the lines of a record to the record.
\<close>

declare parseHtmlAttributes_loop.simps [simp del]

subsection \<open>Trimming\<close>

text \<open>\<open>rstrip\<close> removes the white space at the end, the second half of \<open>trim\<close>.\<close>

definition rstrip :: "string \<Rightarrow> string" where
  "rstrip s = rev (dropWhile is_ws (rev s))"

lemma trim_rstrip: "trim s = rstrip (dropWhile is_ws s)"
  by (simp add: trim_def rstrip_def)

lemma rstrip_append_keep:
  assumes "a \<noteq> []" and "\<not> is_ws (last a)"
  shows "rstrip (a @ b) = a @ rstrip b"
proof -
  obtain a' x where a: "a = a' @ [x]" using assms(1) by (cases a rule: rev_cases) auto
  have k: "dropWhile is_ws (rev a) = rev a" using assms(2) by (simp add: a)
  show ?thesis
    by (auto simp: rstrip_def dropWhile_append k)
qed

lemma rstrip_id: "s \<noteq> [] \<Longrightarrow> \<not> is_ws (last s) \<Longrightarrow> rstrip s = s"
  using rstrip_append_keep [of s "[]"] by (simp add: rstrip_def)

lemma rstrip_Nil [simp]: "rstrip [] = []"
  by (simp add: rstrip_def)

lemma trim_no_lead: "s \<noteq> [] \<Longrightarrow> \<not> is_ws (hd s) \<Longrightarrow> trim s = rstrip s"
  by (cases s) (auto simp: trim_rstrip)

lemma trim_id: "s \<noteq> [] \<Longrightarrow> \<not> is_ws (hd s) \<Longrightarrow> \<not> is_ws (last s) \<Longrightarrow> trim s = s"
  by (simp add: trim_no_lead rstrip_id)

lemma trim_ws_prefix: "list_all is_ws w \<Longrightarrow> trim (w @ s) = trim s"
  by (induction w) (auto simp: trim_def)

lemma rstrip_ws: "list_all is_ws w \<Longrightarrow> rstrip (s @ w) = rstrip s"
proof -
  assume "list_all is_ws w"
  then have "dropWhile is_ws (rev w @ rev s) = dropWhile is_ws (rev s)"
    by (simp add: dropWhile_append list_all_iff)
  then show ?thesis by (simp add: rstrip_def)
qed

lemma trim_rstrip_idem: "trim (rstrip s) = trim s"
proof -
  have "dropWhile is_ws (rstrip s) = rstrip (dropWhile is_ws s)"
  proof (cases "list_all is_ws s")
    case True
    then have a: "dropWhile is_ws s = []" by (simp add: list_all_iff)
    have "dropWhile is_ws (rev s) = []" using True by (simp add: list_all_iff)
    then have "rstrip s = []" by (simp add: rstrip_def)
    then show ?thesis by (simp add: a)
  next
    case False
    define d where "d = dropWhile is_ws s"
    define t where "t = takeWhile is_ws s"
    have s: "s = t @ d" by (simp add: t_def d_def)
    have dne: "d \<noteq> []" using False by (auto simp: d_def list_all_iff)
    have hd: "\<not> is_ws (hd d)" using dne hd_dropWhile [of is_ws s] by (simp add: d_def)
    have t: "list_all is_ws t" by (auto simp: t_def list_all_iff dest: set_takeWhileD)
    have r: "rstrip d \<noteq> [] \<and> hd (rstrip d) = hd d"
    proof -
      obtain x d' where d: "d = x # d'" using dne by (cases d) auto
      have "\<not> is_ws x" using hd d by simp
      then have "rstrip ([x] @ d') = [x] @ rstrip d'"
        by (intro rstrip_append_keep) auto
      then show ?thesis by (simp add: d)
    qed
    have "rstrip s = t @ rstrip d"
    proof -
      have "rev s = rev d @ rev t" by (simp add: s)
      moreover have "\<exists>x \<in> set (rev d). \<not> is_ws x" using dne hd by (cases d) auto
      ultimately have "dropWhile is_ws (rev s) = dropWhile is_ws (rev d) @ rev t"
        by (auto simp: dropWhile_append)
      then show ?thesis by (simp add: rstrip_def)
    qed
    moreover have "dropWhile is_ws (t @ rstrip d) = rstrip d"
    proof -
      have "dropWhile is_ws (t @ rstrip d) = dropWhile is_ws (rstrip d)"
        using t by (simp add: dropWhile_append list_all_iff)
      also have "\<dots> = rstrip d" using r hd by (cases "rstrip d") auto
      finally show ?thesis .
    qed
    ultimately show ?thesis by (simp add: d_def)
  qed
  then show ?thesis by (simp add: trim_rstrip rstrip_def)
qed

subsection \<open>Attribute tokens\<close>

text \<open>
  The text that \<open>attrsToString\<close> writes for one attribute: its name, followed by the
  escaped value between double quotes when the value is neither \<open>null\<close> nor empty.
\<close>

definition esc_value :: "string \<Rightarrow> string" where
  "esc_value v = replace_newlines
     (replace_char (CHR 0x27) [CHR 0x5C, CHR 0x27] (replace_char (CHR 0x22) [CHR 0x5C, CHR 0x22] v))"

definition attr_token :: "string \<times> string option \<Rightarrow> string" where
  "attr_token p =
     (if truthy (snd p) then fst p @ [CHR ''='', CHR 0x22] @ esc_value (the (snd p)) @ [CHR 0x22]
      else fst p)"

lemma attrsToString_tokens: "attrsToString f = join '' '' (map attr_token (attributes f))"
proof -
  have "(\<lambda>(n, value).
               if truthy value then
                 (let v = replace_newlines
                            (replace_char (CHR 0x27) [CHR 0x5C, CHR 0x27]
                               (replace_char (CHR 0x22) [CHR 0x5C, CHR 0x22] (the value)))
                  in n @ [CHR ''='', CHR 0x22] @ v @ [CHR 0x22])
               else n) = attr_token"
    by (auto simp: attr_token_def esc_value_def fun_eq_iff)
  then show ?thesis by (simp add: attrsToString_def)
qed

text \<open>
  A character that a value keeps through the round trip: no double quote, no backslash, no
  line feed.
\<close>

definition value_char :: "char \<Rightarrow> bool" where
  "value_char c = (c \<noteq> CHR 0x22 \<and> c \<noteq> CHR 0x5C \<and> c \<noteq> CHR 0x0A)"

lemma replace_char_id: "c \<notin> set s \<Longrightarrow> replace_char c r s = s"
  by (induction s) (auto simp: replace_char_def)

lemma replace_newlines_id: "CHR 0x0A \<notin> set s \<Longrightarrow> replace_newlines s = s"
  by (induction s rule: replace_newlines.induct) auto

lemma replace_sq_no_nl:
  "CHR 0x0A \<notin> set s \<Longrightarrow> CHR 0x0A \<notin> set (replace_char (CHR 0x27) [CHR 0x5C, CHR 0x27] s)"
  by (induction s) (auto simp: replace_char_def)

lemma esc_value_simp:
  "list_all value_char v \<Longrightarrow> esc_value v = replace_char (CHR 0x27) [CHR 0x5C, CHR 0x27] v"
proof -
  assume v: "list_all value_char v"
  have a: "CHR 0x22 \<notin> set v" and b: "CHR 0x0A \<notin> set v"
    using v by (auto simp: list_all_iff value_char_def)
  have "replace_char (CHR 0x22) [CHR 0x5C, CHR 0x22] v = v"
    using a by (rule replace_char_id)
  moreover have "replace_newlines (replace_char (CHR 0x27) [CHR 0x5C, CHR 0x27] v)
                   = replace_char (CHR 0x27) [CHR 0x5C, CHR 0x27] v"
    using b by (intro replace_newlines_id replace_sq_no_nl)
  ultimately show ?thesis by (simp add: esc_value_def)
qed

text \<open>
  A text between double quotes that the matcher reads to its end: it holds no double
  quote, and no backslash stands before the closing quote.
\<close>

fun safe_body :: "string \<Rightarrow> bool" where
  "safe_body [] = True"
| "safe_body [c] = (c \<noteq> CHR 0x22 \<and> c \<noteq> CHR 0x5C)"
| "safe_body (c # d # cs) =
     (c \<noteq> CHR 0x22 \<and> (c = CHR 0x5C \<longrightarrow> d \<noteq> CHR 0x22) \<and> safe_body (d # cs))"

lemma quoted_safe:
  "safe_body w \<Longrightarrow> quoted (CHR 0x22) (w @ CHR 0x22 # R) = Some (w, R)"
proof (induction w rule: safe_body.induct)
  case 1
  then show ?case by (cases R) auto
next
  case (2 c)
  then show ?case by (cases R) auto
next
  case (3 c d cs)
  then show ?case by auto
qed

lemma safe_body_Cons:
  "x \<noteq> CHR 0x22 \<Longrightarrow> x \<noteq> CHR 0x5C \<Longrightarrow> safe_body s \<Longrightarrow> safe_body (x # s)"
  by (cases s) auto

lemma safe_body_plain: "list_all value_char v \<Longrightarrow> safe_body v"
  by (induction v) (auto simp: value_char_def intro: safe_body_Cons)

lemma safe_body_esc:
  "list_all value_char v \<Longrightarrow> safe_body (replace_char (CHR 0x27) [CHR 0x5C, CHR 0x27] v)"
proof (induction v)
  case Nil
  then show ?case by (simp add: replace_char_def)
next
  case (Cons x v)
  then have ih: "safe_body (replace_char (CHR 0x27) [CHR 0x5C, CHR 0x27] v)" by simp
  have x: "x \<noteq> CHR 0x22" "x \<noteq> CHR 0x5C" using Cons.prems by (auto simp: value_char_def)
  show ?case
  proof (cases "x = CHR 0x27")
    case True
    have "safe_body (CHR 0x27 # replace_char (CHR 0x27) [CHR 0x5C, CHR 0x27] v)"
      using ih by (intro safe_body_Cons) auto
    then show ?thesis using True by (simp add: replace_char_def)
  next
    case False
    then show ?thesis using ih x safe_body_Cons by (simp add: replace_char_def)
  qed
qed

lemma unescape_Cons:
  "x \<noteq> CHR 0x5C \<Longrightarrow> unescape_quotes (x # s) = x # unescape_quotes s"
  by (cases s) auto

lemma unescape_plain: "CHR 0x5C \<notin> set v \<Longrightarrow> unescape_quotes v = v"
  by (induction v) (auto simp: unescape_Cons)

lemma unescape_esc:
  "CHR 0x5C \<notin> set v \<Longrightarrow> unescape_quotes (replace_char (CHR 0x27) [CHR 0x5C, CHR 0x27] v) = v"
proof (induction v)
  case Nil
  then show ?case by (simp add: replace_char_def)
next
  case (Cons x v)
  then show ?case
    by (cases "x = CHR 0x27") (auto simp: replace_char_def unescape_Cons)
qed

lemma attr_value_quoted:
  "attr_value (Some (CHR 0x22 # w @ [CHR 0x22])) = Some (unescape_quotes w)"
  by (simp add: attr_value_def truthy_def startsWith_def endsWith_def Let_def)

lemma attr_value_None: "attr_value None = None"
  by (simp add: attr_value_def truthy_def)

lemma takeWhile_name:
  "list_all is_name_char n \<Longrightarrow> R = [] \<or> \<not> is_name_char (hd R) \<Longrightarrow>
     takeWhile is_name_char (n @ R) = n \<and> dropWhile is_name_char (n @ R) = R"
  by (cases R) (auto simp: list_all_iff takeWhile_append dropWhile_append)

lemma match_attr_valued:
  assumes "list_all is_name_char n" and "safe_body w"
  shows "match_attr (n @ CHR ''='' # CHR 0x22 # w @ CHR 0x22 # R)
           = (n, Some (CHR 0x22 # w @ [CHR 0x22]), R)"
proof -
  have ne: "\<not> is_name_char CHR ''=''" by (simp add: is_name_char_def)
  have t: "takeWhile is_name_char (n @ CHR ''='' # CHR 0x22 # w @ CHR 0x22 # R) = n"
    "dropWhile is_name_char (n @ CHR ''='' # CHR 0x22 # w @ CHR 0x22 # R)
       = CHR ''='' # CHR 0x22 # w @ CHR 0x22 # R"
    using takeWhile_name [OF assms(1), of "CHR ''='' # CHR 0x22 # w @ CHR 0x22 # R"] ne
    by auto
  have ws: "\<not> is_ws CHR ''=''" "\<not> is_ws CHR 0x22" by (simp_all add: is_ws_def)
  have mv: "match_value (CHR 0x22 # w @ CHR 0x22 # R) = (CHR 0x22 # w @ [CHR 0x22], R)"
    by (simp add: match_value_def quoted_safe [OF assms(2)])
  show ?thesis
    by (simp add: match_attr_def t ws mv Let_def)
qed

lemma match_attr_bare:
  assumes "list_all is_name_char n"
    and "R = [] \<or> is_ws (hd R)"
    and "dropWhile is_ws R = [] \<or> hd (dropWhile is_ws R) \<noteq> CHR ''=''"
  shows "match_attr (n @ R) = (n, None, R)"
proof -
  have "R = [] \<or> \<not> is_name_char (hd R)"
    using assms(2) by (auto simp: is_name_char_def)
  then have t: "takeWhile is_name_char (n @ R) = n" "dropWhile is_name_char (n @ R) = R"
    using takeWhile_name [OF assms(1), of R] by auto
  show ?thesis
  proof (cases "dropWhile is_ws R")
    case Nil
    show ?thesis by (simp add: match_attr_def t Let_def Nil)
  next
    case (Cons c r3)
    then have "c \<noteq> CHR ''=''" using assms(3) by simp
    then show ?thesis by (simp add: match_attr_def t Let_def Cons)
  qed
qed

text \<open>
  An attribute that the parser reads back: the name is a run of characters other than
  white space and \<open>=\<close> that does not start with two slashes, is no array index (these
  change their place in \<open>Object.entries\<close>) and is not \<open>__proto__\<close>; the value is
  \<open>null\<close> or a string that is not empty (the empty string is written as a bare name
  and read as \<open>null\<close>) of characters a value keeps.
\<close>

definition wf_attr_name :: "string \<Rightarrow> bool" where
  "wf_attr_name n =
     (n \<noteq> [] \<and> list_all is_name_char n \<and> \<not> startsWith n ''//''
      \<and> \<not> is_array_index n \<and> n \<noteq> ''__proto__'')"

definition wf_attr_value :: "string option \<Rightarrow> bool" where
  "wf_attr_value v = (case v of None \<Rightarrow> True | Some s \<Rightarrow> s \<noteq> [] \<and> list_all value_char s)"

definition wf_attr :: "string \<times> string option \<Rightarrow> bool" where
  "wf_attr p = (wf_attr_name (fst p) \<and> wf_attr_value (snd p))"

lemma loop_Nil: "parseHtmlAttributes_loop [] acc = (acc, None)"
  by (subst parseHtmlAttributes_loop.simps) simp

lemma loop_skip:
  assumes "list_all (\<lambda>c. \<not> is_name_char c) w"
  shows "parseHtmlAttributes_loop (w @ s) acc = parseHtmlAttributes_loop s acc"
proof -
  have d: "dropWhile (\<lambda>c. \<not> is_name_char c) (w @ s) = dropWhile (\<lambda>c. \<not> is_name_char c) s"
    using assms by (simp add: dropWhile_append list_all_iff)
  show ?thesis
    by (subst parseHtmlAttributes_loop.simps, subst (2) parseHtmlAttributes_loop.simps)
       (simp only: d)
qed

lemma loop_at_name:
  assumes "s \<noteq> []" and "is_name_char (hd s)"
  shows "parseHtmlAttributes_loop s acc =
     (case match_attr s of
        (nm, rawValue, rest) \<Rightarrow>
          if startsWith nm ''//'' then
            (let comment = trim (drop 2 s) in
             (acc, if comment = [] then None else Some comment))
          else parseHtmlAttributes_loop rest (Object_set nm (attr_value rawValue) acc))"
proof -
  have d: "dropWhile (\<lambda>c. \<not> is_name_char c) s = s"
    using assms by (cases s) auto
  show ?thesis
    using assms(1) by (subst parseHtmlAttributes_loop.simps) (simp add: d Let_def)
qed

text \<open>The description that the parser takes from the text of a serialized description.\<close>

definition comment_of :: "string \<Rightarrow> string option" where
  "comment_of desc =
     (if desc = [] then None
      else let c = trim (drop 2 desc) in if c = [] then None else Some c)"

lemma loop_comment:
  assumes "startsWith d ''//''"
  shows "parseHtmlAttributes_loop d acc = (acc, comment_of d)"
proof -
  obtain r where d: "d = CHR ''/'' # CHR ''/'' # r"
    using assms by (cases d; cases "tl d") (auto simp: startsWith_def)
  have nc: "is_name_char CHR ''/''" by (simp add: is_name_char_def is_ws_def)
  have "startsWith (takeWhile is_name_char d) ''//''"
    by (simp add: d nc startsWith_def)
  then have "startsWith (fst (match_attr d)) ''//''" by (simp add: match_attr_name)
  then show ?thesis
    using loop_at_name [of d acc] nc
    by (auto simp: d comment_of_def Let_def split: prod.splits)
qed

lemma token_step:
  assumes "wf_attr p"
    and "R = [] \<or> is_ws (hd R)"
    and "dropWhile is_ws R = [] \<or> hd (dropWhile is_ws R) \<noteq> CHR ''=''"
  shows "parseHtmlAttributes_loop (attr_token p @ R) acc
           = parseHtmlAttributes_loop R (Object_set (fst p) (snd p) acc)"
proof -
  obtain n v where p: "p = (n, v)" by (cases p)
  have n: "n \<noteq> []" "list_all is_name_char n" "\<not> startsWith n ''//''"
    using assms(1) by (auto simp: wf_attr_def wf_attr_name_def p)
  obtain x n' where nx: "n = x # n'" using n(1) by (cases n) auto
  have hx: "is_name_char x" using n(2) by (simp add: nx)
  show ?thesis
  proof (cases v)
    case None
    have tok: "attr_token (n, None) = n" by (simp add: attr_token_def truthy_def)
    have m: "match_attr (n @ R) = (n, None, R)"
      using match_attr_bare [OF n(2) assms(2,3)] .
    have "n @ R \<noteq> []" "is_name_char (hd (n @ R))" using hx by (simp_all add: nx)
    then show ?thesis
      using loop_at_name [of "n @ R" acc] m n(3)
      by (simp add: tok p None attr_value_None)
  next
    case (Some s)
    have s: "s \<noteq> []" "list_all value_char s"
      using assms(1) by (auto simp: wf_attr_def wf_attr_value_def p Some)
    define w where "w = replace_char (CHR 0x27) [CHR 0x5C, CHR 0x27] s"
    have tok: "attr_token (n, Some s) @ R = n @ CHR ''='' # CHR 0x22 # w @ CHR 0x22 # R"
      using s by (simp add: attr_token_def truthy_def esc_value_simp w_def)
    have sb: "safe_body w" unfolding w_def using s(2) by (rule safe_body_esc)
    have m: "match_attr (n @ CHR ''='' # CHR 0x22 # w @ CHR 0x22 # R)
           = (n, Some (CHR 0x22 # w @ [CHR 0x22]), R)"
      using match_attr_valued [OF n(2) sb] .
    have "CHR 0x5C \<notin> set s" using s(2) by (auto simp: list_all_iff value_char_def)
    then have u: "unescape_quotes w = s" unfolding w_def by (rule unescape_esc)
    have "n @ CHR ''='' # CHR 0x22 # w @ CHR 0x22 # R \<noteq> []"
      "is_name_char (hd (n @ CHR ''='' # CHR 0x22 # w @ CHR 0x22 # R))"
      using hx by (simp_all add: nx)
    then show ?thesis
      using loop_at_name [of "n @ CHR ''='' # CHR 0x22 # w @ CHR 0x22 # R" acc] m n(3)
      by (simp add: tok p Some attr_value_quoted u)
  qed
qed

lemma attr_token_shape:
  assumes "wf_attr p"
  shows "attr_token p \<noteq> [] \<and> is_name_char (hd (attr_token p)) \<and> \<not> is_ws (last (attr_token p))"
proof -
  obtain n v where p: "p = (n, v)" by (cases p)
  have n: "n \<noteq> []" "list_all is_name_char n"
    using assms(1) by (auto simp: wf_attr_def wf_attr_name_def p)
  have "is_name_char (last n)" using n by (simp add: list_all_iff)
  then have l: "\<not> is_ws (last n)" by (simp add: is_name_char_def)
  have h: "is_name_char (hd n)" using n by (cases n) auto
  have q: "\<not> is_ws CHR 0x22" by (simp add: is_ws_def)
  show ?thesis using n(1) l h q
    by (auto simp: attr_token_def p)
qed

lemma join_Cons:
  "join sep (x # xs) = x @ (if xs = [] then [] else sep @ join sep xs)"
  by (cases xs) auto

lemma tokens_shape:
  assumes "list_all wf_attr as" and "as \<noteq> []"
  shows "join '' '' (map attr_token as) \<noteq> []
         \<and> is_name_char (hd (join '' '' (map attr_token as)))
         \<and> \<not> is_ws (last (join '' '' (map attr_token as)))"
  using assms
proof (induction as)
  case Nil
  then show ?case by simp
next
  case (Cons a as)
  have a: "attr_token a \<noteq> []" "is_name_char (hd (attr_token a))" "\<not> is_ws (last (attr_token a))"
    using attr_token_shape [of a] Cons.prems by auto
  show ?case
  proof (cases "as = []")
    case True
    then show ?thesis using a by simp
  next
    case False
    then have "join '' '' (map attr_token as) \<noteq> []"
      "\<not> is_ws (last (join '' '' (map attr_token as)))"
      using Cons by auto
    then show ?thesis using a False by (simp add: join_Cons)
  qed
qed

text \<open>The object after the assignment of a list of attributes, one after the other.\<close>

definition set_all :: "JsObject \<Rightarrow> (string \<times> string option) list \<Rightarrow> JsObject" where
  "set_all acc as = foldl (\<lambda>obj p. Object_set (fst p) (snd p) obj) acc as"

text \<open>The object with the given properties and the prototype it was created with.\<close>

definition Object_of :: "(string \<times> string option) list \<Rightarrow> JsObject" where
  "Object_of ps = \<lparr>ownProperties = ps, nullPrototype = False\<rparr>"

lemma loop_tokens:
  assumes "list_all wf_attr as"
    and "Z = [] \<or> (\<exists>d. Z = CHR '' '' # d \<and> startsWith d ''//'')"
  shows "parseHtmlAttributes_loop (join '' '' (map attr_token as) @ Z) acc
           = parseHtmlAttributes_loop Z (set_all acc as)"
  using assms(1)
proof (induction as arbitrary: acc)
  case Nil
  then show ?case by (simp add: set_all_def)
next
  case (Cons a as)
  have wa: "wf_attr a" and was: "list_all wf_attr as" using Cons.prems by auto
  have sp: "is_ws CHR '' ''" by (simp add: is_ws_def)
  show ?case
  proof (cases "as = []")
    case True
    have z1: "Z = [] \<or> is_ws (hd Z)" using assms(2) sp by auto
    have z2: "dropWhile is_ws Z = [] \<or> hd (dropWhile is_ws Z) \<noteq> CHR ''=''"
    proof (cases "Z = []")
      case True
      then show ?thesis by simp
    next
      case False
      then obtain d where d: "Z = CHR '' '' # d" "startsWith d ''//''" using assms(2) by auto
      then obtain r where r: "d = CHR ''/'' # r" by (cases d) (auto simp: startsWith_def)
      have "\<not> is_ws CHR ''/''" by (simp add: is_ws_def)
      then show ?thesis using sp by (simp add: d r)
    qed
    show ?thesis using token_step [OF wa z1 z2, of acc] True
      by (simp add: set_all_def)
  next
    case False
    define X where "X = join '' '' (map attr_token as)"
    have xs: "X \<noteq> []" "is_name_char (hd X)"
      using tokens_shape [OF was False] by (simp_all add: X_def)
    have hx: "\<not> is_ws (hd X)" "hd X \<noteq> CHR ''=''" using xs(2) by (auto simp: is_name_char_def)
    define R where "R = CHR '' '' # X @ Z"
    have r1: "R = [] \<or> is_ws (hd R)" using sp by (simp add: R_def)
    have "dropWhile is_ws R = X @ Z" using sp hx xs(1) by (cases X) (auto simp: R_def)
    then have r2: "dropWhile is_ws R = [] \<or> hd (dropWhile is_ws R) \<noteq> CHR ''=''"
      using hx xs(1) by (cases X) auto
    have j: "join '' '' (attr_token a # map attr_token as) @ Z = attr_token a @ R"
      using False by (simp add: join_Cons R_def X_def)
    have "parseHtmlAttributes_loop (attr_token a @ R) acc
            = parseHtmlAttributes_loop R (Object_set (fst a) (snd a) acc)"
      using token_step [OF wa r1 r2] .
    also have "\<dots> = parseHtmlAttributes_loop (X @ Z) (Object_set (fst a) (snd a) acc)"
      using loop_skip [of "[CHR '' '']" "X @ Z"] sp by (simp add: R_def is_name_char_def)
    also have "\<dots> = parseHtmlAttributes_loop Z (set_all (Object_set (fst a) (snd a) acc) as)"
      using Cons.IH [OF was] by (simp add: X_def)
    finally show ?thesis by (simp add: j set_all_def)
  qed
qed

lemma Map_set_fresh: "k \<notin> set (map fst m) \<Longrightarrow> Map_set k v m = m @ [(k, v)]"
  by (induction m) auto

lemma set_all_fresh:
  assumes "list_all (\<lambda>p. fst p \<noteq> ''__proto__'') as" and "distinct (map fst as)"
    and "set (map fst as) \<inter> set (map fst acc) = {}"
  shows "set_all (Object_of acc) as = Object_of (acc @ as)"
  using assms
proof (induction as arbitrary: acc)
  case Nil
  then show ?case by (simp add: set_all_def)
next
  case (Cons a as)
  have f: "fst a \<notin> set (map fst acc)" using Cons.prems(3) by auto
  have o: "Object_set (fst a) (snd a) (Object_of acc) = Object_of (acc @ [a])"
    using Cons.prems(1) f by (simp add: Object_set_def Object_of_def Map_set_fresh)
  have "set_all (Object_of (acc @ [a])) as = Object_of ((acc @ [a]) @ as)"
    using Cons.prems by (intro Cons.IH) auto
  then show ?case by (simp add: set_all_def o)
qed

lemma Object_entries_id:
  "list_all (\<lambda>p. \<not> is_array_index (fst p)) ps \<Longrightarrow> Object_entries (Object_of ps) = ps"
  by (simp add: Object_entries_def Object_of_def list_all_iff)

lemma Object_entries_single: "Object_entries (Object_of [p]) = [p]"
  by (simp add: Object_entries_def Object_of_def)

lemma setAttributes_fold:
  "setAttributes as f = f\<lparr>attributes := foldl (\<lambda>m p. Map_set (fst p) (snd p) m) (attributes f) as\<rparr>"
  unfolding setAttributes_def
  by (induction as arbitrary: f) (auto simp: setAttribute_def split: prod.splits)

lemma fold_Map_set_fresh:
  "distinct (map fst as) \<Longrightarrow> set (map fst as) \<inter> set (map fst m) = {} \<Longrightarrow>
     foldl (\<lambda>m p. Map_set (fst p) (snd p) m) m as = m @ as"
proof (induction as arbitrary: m)
  case Nil
  then show ?case by simp
next
  case (Cons a as)
  have "Map_set (fst a) (snd a) m = m @ [a]"
    using Cons.prems(2) by (simp add: Map_set_fresh)
  moreover have "foldl (\<lambda>m p. Map_set (fst p) (snd p) m) (m @ [a]) as = (m @ [a]) @ as"
    using Cons.prems by (intro Cons.IH) auto
  ultimately show ?case by simp
qed

lemma rstrip_prefix: "\<exists>y. s = rstrip s @ y \<and> list_all is_ws y"
proof -
  have "rev s = takeWhile is_ws (rev s) @ dropWhile is_ws (rev s)" by simp
  then have "s = rev (dropWhile is_ws (rev s)) @ rev (takeWhile is_ws (rev s))"
    by (metis rev_append rev_rev_ident)
  moreover have "list_all is_ws (rev (takeWhile is_ws (rev s)))"
    by (auto simp: list_all_iff dest: set_takeWhileD)
  ultimately show ?thesis unfolding rstrip_def by blast
qed

lemma rstrip_last: "rstrip s = [] \<or> \<not> is_ws (last (rstrip s))"
proof (cases "dropWhile is_ws (rev s)")
  case Nil
  then show ?thesis by (simp add: rstrip_def)
next
  case (Cons x xs)
  then have "\<not> is_ws x" by (simp add: dropWhile_eq_Cons_conv)
  then show ?thesis by (simp add: rstrip_def Cons)
qed

lemma set_rstrip: "set (rstrip s) \<subseteq> set s"
  using rstrip_prefix [of s] by (metis set_append sup_ge1)

lemma set_trim: "set (trim s) \<subseteq> set s"
  using set_rstrip [of "dropWhile is_ws s"] set_dropWhileD [of _ is_ws s]
  by (auto simp: trim_rstrip)

lemma replace_newlines_no_nl: "CHR 0x0A \<notin> set (replace_newlines s)"
  by (induction s rule: replace_newlines.induct) auto

text \<open>
  What \<open>#descriptionToString\<close> returns holds no line feed, and is empty or starts with
  two slashes and ends with a character that is no white space.
\<close>

definition desc_ok :: "string \<Rightarrow> bool" where
  "desc_ok desc = (CHR 0x0A \<notin> set desc \<and>
     (desc = [] \<or> (startsWith desc ''//'' \<and> \<not> is_ws (last desc))))"

lemma descriptionToString_ok: "desc_ok (descriptionToString d)"
proof (cases "truthy d")
  case False
  then show ?thesis by (simp add: descriptionToString_def desc_ok_def)
next
  case True
  define X where "X = replace_newlines (replace_char (CHR 0x22) ''&quot;'' (the d))"
  have ds: "descriptionToString d = trim (''// '' @ X)"
    using True by (simp add: descriptionToString_def X_def)
  have sl: "\<not> is_ws CHR ''/''" by (simp add: is_ws_def)
  have "trim (''// '' @ X) = rstrip (''//'' @ CHR '' '' # X)"
    using sl by (simp add: trim_rstrip)
  also have "\<dots> = ''//'' @ rstrip (CHR '' '' # X)"
    using sl by (intro rstrip_append_keep) auto
  finally have t: "descriptionToString d = ''//'' @ rstrip (CHR '' '' # X)" by (simp add: ds)
  have nl: "CHR 0x0A \<notin> set (''// '' @ X)" by (simp add: X_def replace_newlines_no_nl)
  then have n1: "CHR 0x0A \<notin> set (descriptionToString d)"
    using set_trim [of "''// '' @ X"] ds by auto
  have "\<not> is_ws (last (''//'' @ rstrip (CHR '' '' # X)))"
    using rstrip_last [of "CHR '' '' # X"] sl by auto
  then show ?thesis using n1 t by (simp add: desc_ok_def startsWith_def)
qed

lemma parse_attrs:
  assumes wf: "list_all wf_attr as" and di: "distinct (map fst as)" and de: "desc_ok desc"
  shows "parseHtmlAttributes (trim (join '' '' (map attr_token as) @ '' '' @ desc))
           = (Object_of as, comment_of desc)"
proof -
  define A where "A = join '' '' (map attr_token as)"
  have sp: "is_ws CHR '' ''" by (simp add: is_ws_def)
  have np: "list_all (\<lambda>p. fst p \<noteq> ''__proto__'') as"
    using wf by (auto simp: list_all_iff wf_attr_def wf_attr_name_def)
  have sa: "set_all Object_empty as = Object_of as"
    using set_all_fresh [OF np di, of "[]"] by (simp add: Object_empty_def Object_of_def)
  have A: "as \<noteq> [] \<Longrightarrow> A \<noteq> [] \<and> \<not> is_ws (hd A) \<and> \<not> is_ws (last A)"
    using tokens_shape [OF wf] by (auto simp: A_def is_name_char_def)
  have A0: "as = [] \<Longrightarrow> A = []" by (simp add: A_def)
  have "parseHtmlAttributes_loop (trim (A @ '' '' @ desc)) Object_empty
          = (Object_of as, comment_of desc)"
  proof (cases "desc = []")
    case True
    have "trim (A @ '' '') = A"
    proof (cases "as = []")
      case True
      then show ?thesis using A0 sp by (simp add: trim_def)
    next
      case False
      have "trim (A @ '' '') = rstrip (A @ '' '')"
        using A [OF False] by (intro trim_no_lead) auto
      also have "\<dots> = rstrip A" using rstrip_ws [of "'' ''" A] sp by simp
      also have "\<dots> = A" using A [OF False] by (intro rstrip_id) auto
      finally show ?thesis .
    qed
    then have t: "trim (A @ '' '' @ desc) = A" using True by simp
    have "parseHtmlAttributes_loop (A @ []) Object_empty
            = parseHtmlAttributes_loop [] (set_all Object_empty as)"
      unfolding A_def using wf by (intro loop_tokens) auto
    then have "parseHtmlAttributes_loop A Object_empty = (Object_of as, None)"
      by (simp add: loop_Nil sa)
    moreover have "comment_of desc = None" using True by (simp add: comment_of_def)
    ultimately show ?thesis unfolding t by simp
  next
    case False
    then have d: "startsWith desc ''//''" "\<not> is_ws (last desc)"
      using de by (auto simp: desc_ok_def)
    then obtain r where r: "desc = CHR ''/'' # r" by (cases desc) (auto simp: startsWith_def)
    have sl: "\<not> is_ws CHR ''/''" by (simp add: is_ws_def)
    have td: "trim desc = desc" using d(2) sl by (intro trim_id) (auto simp: r)
    show ?thesis
    proof (cases "as = []")
      case True
      have "trim ('' '' @ desc) = desc"
        using trim_ws_prefix [of "'' ''" desc] sp td by simp
      then have t: "trim (A @ '' '' @ desc) = desc" by (simp add: A0 [OF True])
      show ?thesis unfolding t using True d(1)
        by (simp add: loop_comment Object_empty_def Object_of_def)
    next
      case nonempty: False
      have "A @ '' '' @ desc \<noteq> []" "\<not> is_ws (hd (A @ '' '' @ desc))"
        "\<not> is_ws (last (A @ '' '' @ desc))"
        using A [OF nonempty] d(2) False by auto
      then have t: "trim (A @ '' '' @ desc) = A @ '' '' @ desc" by (rule trim_id)
      have "parseHtmlAttributes_loop (A @ CHR '' '' # desc) Object_empty
              = parseHtmlAttributes_loop (CHR '' '' # desc) (set_all Object_empty as)"
        unfolding A_def using wf d(1) by (intro loop_tokens) auto
      also have "\<dots> = parseHtmlAttributes_loop desc (Object_of as)"
        using loop_skip [of "'' ''" desc "Object_of as"] sp by (simp add: sa is_name_char_def)
      also have "\<dots> = (Object_of as, comment_of desc)" using d(1) by (rule loop_comment)
      finally show ?thesis unfolding t by simp
    qed
  qed
  then show ?thesis by (simp add: parseHtmlAttributes_def A_def)
qed

subsection \<open>Field lines\<close>

text \<open>
  A field that the parser reads back from its line: the name is a run of
  \<open>[a-zA-Z0-9_\.]\<close>; an optional field has a default that is not \<open>null\<close>, of characters
  a value keeps and without \<open>]\<close>, and is not named \<open>__proto__\<close>; a required field has
  the default \<open>null\<close>; the attributes are as above, with distinct names. The parsed
  field is the field with the description that the parser takes from the serialized one.
\<close>

definition default_char :: "char \<Rightarrow> bool" where
  "default_char c = (value_char c \<and> c \<noteq> CHR '']'')"

definition wf_field :: "Field \<Rightarrow> bool" where
  "wf_field f =
     (Field.name f \<noteq> [] \<and> list_all is_field_char (Field.name f)
      \<and> (if isOptional f
          then Field.name f \<noteq> ''__proto__''
               \<and> (case defaultValue f of None \<Rightarrow> False | Some dv \<Rightarrow> list_all default_char dv)
          else defaultValue f = None)
      \<and> list_all wf_attr (attributes f) \<and> distinct (map fst (attributes f)))"

definition reparsed_field :: "Field \<Rightarrow> Field" where
  "reparsed_field f =
     f\<lparr>Field.description := comment_of (descriptionToString (Field.description f))\<rparr>"

definition name_str :: "Field \<Rightarrow> string" where
  "name_str f =
     (if isOptional f
      then ''['' @ Field.name f @ [CHR ''='', CHR 0x22] @ template (defaultValue f)
           @ [CHR 0x22] @ '']''
      else Field.name f)"

definition field_tail :: "Field \<Rightarrow> string" where
  "field_tail f =
     rstrip (''    '' @ attrsToString f @ '' '' @ descriptionToString (Field.description f))"

lemma field_char_facts:
  assumes "is_field_char c"
  shows "\<not> is_ws c" "is_name_char c" "c \<noteq> CHR '']''" "c \<noteq> CHR ''[''" "c \<noteq> CHR ''@''"
    "c \<noteq> CHR ''?''" "c \<noteq> CHR 0x0A" "c \<noteq> CHR '' ''" "c \<noteq> CHR ''/''"
  using assms by (auto simp: is_field_char_def is_word_def is_ws_def is_name_char_def Let_def)

lemma name_str_shape:
  assumes "wf_field f"
  shows "name_str f \<noteq> []" "\<not> is_ws (hd (name_str f))" "\<not> is_ws (last (name_str f))"
    "hd (name_str f) \<noteq> CHR ''@''"
proof -
  have n: "Field.name f \<noteq> []" "list_all is_field_char (Field.name f)"
    using assms by (auto simp: wf_field_def)
  have h: "is_field_char (hd (Field.name f))" "is_field_char (last (Field.name f))"
    using n by (auto simp: list_all_iff)
  have b: "\<not> is_ws CHR ''[''" "\<not> is_ws CHR '']''" by (simp_all add: is_ws_def)
  show "name_str f \<noteq> []" using n(1) by (simp add: name_str_def)
  show "\<not> is_ws (hd (name_str f))" using field_char_facts(1) [OF h(1)] b
    by (simp add: name_str_def)
  show "\<not> is_ws (last (name_str f))" using field_char_facts(1) [OF h(2)] b
    by (simp add: name_str_def)
  show "hd (name_str f) \<noteq> CHR ''@''" using field_char_facts(5) [OF h(1)]
    by (simp add: name_str_def)
qed

lemma Field_stringify_split:
  assumes "wf_field f"
  shows "Field_stringify f = name_str f @ field_tail f"
proof -
  define X where "X = ''    '' @ attrsToString f @ '' '' @ descriptionToString (Field.description f)"
  have "Field_stringify f = trim (name_str f @ X)"
    by (simp add: Field_stringify_def name_str_def X_def Let_def)
  also have "\<dots> = rstrip (name_str f @ X)"
    using name_str_shape [OF assms] by (intro trim_no_lead) auto
  also have "\<dots> = name_str f @ rstrip X"
    using name_str_shape [OF assms] by (intro rstrip_append_keep) auto
  finally show ?thesis by (simp add: field_tail_def X_def)
qed

lemma field_tail_shape: "field_tail f = [] \<or> hd (field_tail f) = CHR '' ''"
proof -
  define X where "X = ''    '' @ attrsToString f @ '' '' @ descriptionToString (Field.description f)"
  obtain y where y: "X = rstrip X @ y" using rstrip_prefix [of X] by blast
  have h: "hd X = CHR '' ''" by (simp add: X_def)
  have "rstrip X = [] \<or> hd (rstrip X) = CHR '' ''"
  proof (cases "rstrip X = []")
    case True
    then show ?thesis by simp
  next
    case False
    then have "hd X = hd (rstrip X)" using y by (metis hd_append2)
    then show ?thesis using h by simp
  qed
  then show ?thesis by (simp add: field_tail_def X_def)
qed

lemma trim_field_tail:
  "trim (field_tail f)
     = trim (attrsToString f @ '' '' @ descriptionToString (Field.description f))"
proof -
  have sp: "list_all is_ws ''    ''" by (simp add: is_ws_def)
  show ?thesis
    unfolding field_tail_def trim_rstrip_idem
    using trim_ws_prefix [OF sp] by simp
qed

lemma parse_tail:
  assumes "wf_field f"
  shows "parseHtmlAttributes (trim (field_tail f))
           = (Object_of (attributes f), comment_of (descriptionToString (Field.description f)))"
  using assms parse_attrs [OF _ _ descriptionToString_ok, of "attributes f" "Field.description f"]
  by (simp add: trim_field_tail attrsToString_tokens wf_field_def)

lemma finish_field:
  assumes "list_all wf_attr as" and "distinct (map fst as)"
  shows "setAttributes (Object_entries (Object_of as)) (Field_new n opt dv None)
           \<lparr>Field.description := c\<rparr>
           = \<lparr>Field.name = n, attributes = as, isOptional = opt, defaultValue = dv,
              Field.description = c\<rparr>"
proof -
  have "list_all (\<lambda>p. \<not> is_array_index (fst p)) as"
    using assms(1) by (auto simp: list_all_iff wf_attr_def wf_attr_name_def)
  then have e: "Object_entries (Object_of as) = as" by (rule Object_entries_id)
  have "foldl (\<lambda>m p. Map_set (fst p) (snd p) m) [] as = [] @ as"
    using assms(2) by (intro fold_Map_set_fresh) auto
  then show ?thesis
    by (simp add: e setAttributes_fold Field_new_def)
qed

lemma parseField_plain:
  assumes wf: "wf_field f" and opt: "\<not> isOptional f"
  shows "parseField (Field_stringify f) = Inr (reparsed_field f)"
proof -
  define nm where "nm = Field.name f"
  define T where "T = field_tail f"
  have n: "nm \<noteq> []" "list_all is_field_char nm" using wf by (auto simp: wf_field_def nm_def)
  have dv: "defaultValue f = None" using wf opt by (simp add: wf_field_def)
  have line: "Field_stringify f = nm @ T"
    using Field_stringify_split [OF wf] opt by (simp add: name_str_def nm_def T_def)
  have T: "T = [] \<or> hd T = CHR '' ''" using field_tail_shape [of f] by (simp add: T_def)
  have nf: "\<not> is_field_char CHR '' ''"
    by (simp add: is_field_char_def is_word_def Let_def)
  have tw: "takeWhile is_field_char (nm @ T) = nm"
    using n(2) T nf by (cases T) (auto simp: list_all_iff takeWhile_append)
  have hdn: "is_field_char (hd nm)" using n by (cases nm) auto
  have nb: "\<not> startsWith (nm @ T) ''[''"
    using field_char_facts(4) [OF hdn] n(1) by (cases nm) (auto simp: startsWith_def)
  have q: "(case T of [] \<Rightarrow> False | c # _ \<Rightarrow> c = CHR ''?'') = False"
    using T by (cases T) auto
  have pa: "parseHtmlAttributes (trim T)
              = (Object_of (attributes f),
                 comment_of (descriptionToString (Field.description f)))"
    using parse_tail [OF wf] by (simp add: T_def)
  have at: "list_all wf_attr (attributes f)" "distinct (map fst (attributes f))"
    using wf by (auto simp: wf_field_def)
  have "parseField (nm @ T)
          = Inr \<lparr>Field.name = nm, attributes = attributes f, isOptional = False,
                 defaultValue = None,
                 Field.description = comment_of (descriptionToString (Field.description f))\<rparr>"
    using n(1) by (simp add: parseField_def nb tw q pa Let_def finish_field [OF at])
  then show ?thesis
    using opt dv by (simp add: line reparsed_field_def nm_def)
qed

lemma bracket_attrs:
  assumes "list_all is_field_char nm" and "nm \<noteq> []" and "nm \<noteq> ''__proto__''"
    and "list_all default_char dv"
  shows "parseHtmlAttributes (nm @ CHR ''='' # CHR 0x22 # dv @ [CHR 0x22])
           = (Object_of [(nm, Some dv)], None)"
proof -
  have nc: "list_all is_name_char nm"
    using assms(1) field_char_facts(2) by (auto simp: list_all_iff)
  have vc: "list_all value_char dv" using assms(4) by (auto simp: list_all_iff default_char_def)
  have m: "match_attr (nm @ CHR ''='' # CHR 0x22 # dv @ CHR 0x22 # [])
             = (nm, Some (CHR 0x22 # dv @ [CHR 0x22]), [])"
    using match_attr_valued [OF nc safe_body_plain [OF vc]] .
  have hdn: "is_field_char (hd nm)" using assms(1,2) by (cases nm) auto
  have ns: "\<not> startsWith nm ''//''"
    using field_char_facts(9) [OF hdn] assms(2) by (cases nm) (auto simp: startsWith_def)
  have "CHR 0x5C \<notin> set dv" using vc by (auto simp: list_all_iff value_char_def)
  then have u: "unescape_quotes dv = dv" by (rule unescape_plain)
  have "nm @ CHR ''='' # CHR 0x22 # dv @ [CHR 0x22] \<noteq> []"
    "is_name_char (hd (nm @ CHR ''='' # CHR 0x22 # dv @ [CHR 0x22]))"
    using field_char_facts(2) [OF hdn] assms(2) by (cases nm; simp)+
  then show ?thesis
    using loop_at_name [of "nm @ CHR ''='' # CHR 0x22 # dv @ [CHR 0x22]" Object_empty]
      m ns assms(3)
    by (simp add: parseHtmlAttributes_def attr_value_quoted u loop_Nil Object_set_def
          Object_empty_def Object_of_def)
qed

lemma parseField_bracket:
  assumes wf: "wf_field f" and opt: "isOptional f"
  shows "parseField (Field_stringify f) = Inr (reparsed_field f)"
proof -
  define nm where "nm = Field.name f"
  define T where "T = field_tail f"
  have n: "nm \<noteq> []" "list_all is_field_char nm" "nm \<noteq> ''__proto__''"
    using wf opt by (auto simp: wf_field_def nm_def)
  obtain dv where dv: "defaultValue f = Some dv" "list_all default_char dv"
    using wf opt by (auto simp: wf_field_def split: option.splits)
  define B where "B = nm @ CHR ''='' # CHR 0x22 # dv @ [CHR 0x22]"
  have line: "Field_stringify f = CHR ''['' # B @ CHR '']'' # T"
    using Field_stringify_split [OF wf] opt
    by (simp add: name_str_def nm_def T_def dv template_def B_def)
  have nb: "CHR '']'' \<notin> set (CHR ''['' # B)"
    using n(2) dv(2) field_char_facts(3)
    by (auto simp: B_def list_all_iff default_char_def)
  have ix: "indexOf CHR '']'' (CHR ''['' # B @ CHR '']'' # T) = Some (Suc (length B))"
  proof -
    have "takeWhile (\<lambda>x. x \<noteq> CHR '']'') ((CHR ''['' # B) @ CHR '']'' # T)
            = (CHR ''['' # B) @ takeWhile (\<lambda>x. x \<noteq> CHR '']'') (CHR '']'' # T)"
      using nb by (intro takeWhile_append2) auto
    then show ?thesis by (simp add: indexOf_def)
  qed
  have sl: "slice 1 (Suc (length B)) (CHR ''['' # B @ CHR '']'' # T) = B"
    by (simp add: slice_def)
  have dr: "drop (Suc (length B) + 1) (CHR ''['' # B @ CHR '']'' # T) = T" by simp
  have ba: "parseHtmlAttributes B = (Object_of [(nm, Some dv)], None)"
    unfolding B_def using bracket_attrs [OF n(2) n(1) n(3) dv(2)] .
  have pa: "parseHtmlAttributes (trim T)
              = (Object_of (attributes f),
                 comment_of (descriptionToString (Field.description f)))"
    using parse_tail [OF wf] by (simp add: T_def)
  have at: "list_all wf_attr (attributes f)" "distinct (map fst (attributes f))"
    using wf by (auto simp: wf_field_def)
  have "parseField (CHR ''['' # B @ CHR '']'' # T)
          = Inr \<lparr>Field.name = nm, attributes = attributes f, isOptional = True,
                 defaultValue = Some dv,
                 Field.description = comment_of (descriptionToString (Field.description f))\<rparr>"
    by (simp add: parseField_def startsWith_def ix slice_def ba Object_entries_single pa Let_def
          finish_field [OF at])
  then show ?thesis
    using opt dv(1) by (simp add: line reparsed_field_def nm_def)
qed

lemma parseField_stringify:
  "wf_field f \<Longrightarrow> parseField (Field_stringify f) = Inr (reparsed_field f)"
  using parseField_plain parseField_bracket by blast

subsection \<open>Lines\<close>

lemma split_char_nonempty: "split_char c s \<noteq> []"
  by (induction s) (auto split: list.splits)

lemma split_char_append:
  "split_char c (a @ c # b) = split_char c a @ split_char c b"
proof (induction a)
  case Nil
  then show ?case by simp
next
  case (Cons x a)
  obtain y ys where y: "split_char c a = y # ys"
    using split_char_nonempty [of c a] by (cases "split_char c a") auto
  show ?case using Cons y by auto
qed

lemma split_char_none: "c \<notin> set s \<Longrightarrow> split_char c s = [s]"
  by (induction s) auto

definition nonblank :: "string list \<Rightarrow> string list" where
  "nonblank ls = filter (\<lambda>l. trim l \<noteq> []) ls"

definition lines_of :: "string \<Rightarrow> string list" where
  "lines_of s = nonblank (split_char CHR 0x0A s)"

lemma lines_of_Nil: "lines_of [] = []"
  by (simp add: lines_of_def nonblank_def trim_def)

lemma lines_of_append: "lines_of (a @ CHR 0x0A # b) = lines_of a @ lines_of b"
  by (simp add: lines_of_def nonblank_def split_char_append)

lemma lines_of_line: "CHR 0x0A \<notin> set s \<Longrightarrow> trim s \<noteq> [] \<Longrightarrow> lines_of s = [s]"
  by (simp add: lines_of_def nonblank_def split_char_none)

lemma lines_of_nl_end: "lines_of (a @ [CHR 0x0A]) = lines_of a"
  using lines_of_append [of a "[]"] by (simp add: lines_of_Nil)

lemma lines_of_join:
  "lines_of (join [CHR 0x0A] xs) = concat (map lines_of xs)"
proof (induction xs rule: induct_list012)
  case 1
  then show ?case by (simp add: lines_of_Nil)
next
  case (2 x)
  then show ?case by simp
next
  case (3 x y zs)
  then show ?case using lines_of_append [of x "join [CHR 0x0A] (y # zs)"] by simp
qed

lemma lines_of_join2:
  "lines_of (join [CHR 0x0A, CHR 0x0A] xs) = concat (map lines_of xs)"
proof (induction xs rule: induct_list012)
  case 1
  then show ?case by (simp add: lines_of_Nil)
next
  case (2 x)
  then show ?case by simp
next
  case (3 x y zs)
  define Y where "Y = join [CHR 0x0A, CHR 0x0A] (y # zs)"
  have a: "lines_of (CHR 0x0A # Y) = lines_of Y"
    using lines_of_append [of "[]" Y] by (simp add: lines_of_Nil)
  have "lines_of (x @ CHR 0x0A # CHR 0x0A # Y) = lines_of x @ lines_of Y"
    using lines_of_append [of x "CHR 0x0A # Y"] a by simp
  then show ?case using 3 by (simp add: Y_def)
qed

lemma parseLine_blank: "trim l = [] \<Longrightarrow> parseLine l st = Inr st"
  by (simp add: parseLine_def)

lemma parseLines_nonblank: "parseLines ls st = parseLines (nonblank ls) st"
  by (induction ls arbitrary: st) (auto simp: nonblank_def parseLine_blank split: sum.splits)

subsection \<open>The lines of a field, a section and a record\<close>

lemma attr_token_no_nl:
  assumes "wf_attr p"
  shows "CHR 0x0A \<notin> set (attr_token p)"
proof -
  obtain n v where p: "p = (n, v)" by (cases p)
  have n: "list_all is_name_char n" using assms by (simp add: wf_attr_def wf_attr_name_def p)
  have nw: "is_ws CHR 0x0A" by (simp add: is_ws_def)
  have a: "CHR 0x0A \<notin> set n" using n nw by (auto simp: list_all_iff is_name_char_def)
  show ?thesis
  proof (cases v)
    case None
    then show ?thesis using a by (simp add: attr_token_def p truthy_def)
  next
    case (Some s)
    have "s = [] \<or> list_all value_char s"
      using assms by (auto simp: wf_attr_def wf_attr_value_def p Some)
    then have "CHR 0x0A \<notin> set (esc_value s)"
      by (auto simp: esc_value_def replace_newlines_no_nl)
    then show ?thesis using a by (simp add: attr_token_def p Some)
  qed
qed

lemma join_no_nl:
  "\<forall>x \<in> set xs. CHR 0x0A \<notin> set x \<Longrightarrow> CHR 0x0A \<notin> set (join '' '' xs)"
  by (induction xs rule: induct_list012) auto

lemma field_line:
  assumes "wf_field f"
  shows "Field_stringify f \<noteq> []" "\<not> is_ws (hd (Field_stringify f))"
    "hd (Field_stringify f) \<noteq> CHR ''@''" "CHR 0x0A \<notin> set (Field_stringify f)"
    "trim (''    '' @ Field_stringify f) = Field_stringify f"
proof -
  have s: "Field_stringify f = name_str f @ field_tail f"
    using Field_stringify_split [OF assms] .
  have ns: "name_str f \<noteq> []" "\<not> is_ws (hd (name_str f))" "\<not> is_ws (last (name_str f))"
    "hd (name_str f) \<noteq> CHR ''@''"
    using name_str_shape [OF assms] by auto
  show ne: "Field_stringify f \<noteq> []" using ns(1) by (simp add: s)
  show hd: "\<not> is_ws (hd (Field_stringify f))" using ns(1,2) by (simp add: s)
  show "hd (Field_stringify f) \<noteq> CHR ''@''" using ns(1,4) by (simp add: s)
  have n: "list_all is_field_char (Field.name f)" using assms by (simp add: wf_field_def)
  have n1: "CHR 0x0A \<notin> set (Field.name f)"
    using n field_char_facts(7) by (auto simp: list_all_iff)
  have n2: "CHR 0x0A \<notin> set (template (defaultValue f))"
  proof (cases "defaultValue f")
    case None
    then show ?thesis by (simp add: template_def)
  next
    case (Some dv)
    then have "list_all default_char dv"
      using assms by (cases "isOptional f") (simp_all add: wf_field_def)
    then show ?thesis
      by (auto simp: Some template_def list_all_iff default_char_def value_char_def)
  qed
  have n3: "CHR 0x0A \<notin> set (attrsToString f)"
    unfolding attrsToString_tokens
    using assms attr_token_no_nl by (intro join_no_nl) (auto simp: wf_field_def list_all_iff)
  have n4: "CHR 0x0A \<notin> set (descriptionToString (Field.description f))"
    using descriptionToString_ok [of "Field.description f"] by (simp add: desc_ok_def)
  have "CHR 0x0A \<notin> set (name_str f)" using n1 n2 by (simp add: name_str_def)
  moreover have "CHR 0x0A \<notin> set (field_tail f)"
    using set_rstrip [of "''    '' @ attrsToString f @ '' '' @ descriptionToString (Field.description f)"]
      n3 n4 by (auto simp: field_tail_def)
  ultimately show "CHR 0x0A \<notin> set (Field_stringify f)" by (simp add: s)
  have "\<not> is_ws (last (Field_stringify f))"
  proof (cases "field_tail f = []")
    case True
    then show ?thesis using ns(3) by (simp add: s)
  next
    case False
    then show ?thesis
      using rstrip_last [of "''    '' @ attrsToString f @ '' '' @ descriptionToString (Field.description f)"]
      by (simp add: s field_tail_def)
  qed
  then have "trim (Field_stringify f) = Field_stringify f"
    using ne hd by (intro trim_id)
  moreover have "list_all is_ws ''    ''" by (simp add: is_ws_def)
  ultimately show "trim (''    '' @ Field_stringify f) = Field_stringify f"
    using trim_ws_prefix [of "''    ''" "Field_stringify f"] by simp
qed

subsection \<open>The record line\<close>

text \<open>The first line that \<open>Record.stringify\<close> writes.\<close>

definition header :: "Record \<Rightarrow> string" where
  "header r = trim (getFullName r @ ''    '' @ descriptionToString (Record.description r))"

text \<open>
  A full name that the parser reads back: not empty, without white space, not starting
  with \<open>@\<close>, and with no empty segment between its dots.
\<close>

definition wf_fullName :: "string \<Rightarrow> bool" where
  "wf_fullName n =
     (n \<noteq> [] \<and> \<not> has_ws n \<and> hd n \<noteq> CHR ''@'' \<and> [] \<notin> set (split_char CHR ''.'' n))"

lemma join_split_char: "join [c] (split_char c s) = s"
proof (induction s)
  case Nil
  then show ?case by simp
next
  case (Cons x s)
  obtain y ys where y: "split_char c s = y # ys"
    using split_char_nonempty [of c s] by (cases "split_char c s") auto
  show ?case using Cons y by (auto simp: join_Cons)
qed

lemma split_char_parts: "p \<in> set (split_char c s) \<Longrightarrow> set p \<subseteq> set s"
proof (induction s arbitrary: p)
  case Nil
  then show ?case by simp
next
  case (Cons x s)
  obtain y ys where y: "split_char c s = y # ys"
    using split_char_nonempty [of c s] by (cases "split_char c s") auto
  have ih: "\<And>q. q \<in> set (y # ys) \<Longrightarrow> set q \<subseteq> set s"
    using Cons.IH y by simp
  show ?case
  proof (cases "x = c")
    case True
    then show ?thesis using Cons.prems y ih by auto
  next
    case False
    then have "p = x # y \<or> p \<in> set ys" using Cons.prems y by simp
    then show ?thesis using ih [of y] ih [of p] by auto
  qed
qed

lemma join_snoc: "xs \<noteq> [] \<Longrightarrow> join sep (xs @ [v]) = join sep xs @ sep @ v"
  by (induction xs rule: induct_list012) auto

lemma set_join: "set (join sep xs) \<subseteq> set sep \<union> \<Union> (set ` set xs)"
  by (induction xs rule: induct_list012) auto

text \<open>The entity, property and action name that \<open>parseRecordDeclaration\<close> cuts a full name into.\<close>

definition name_parts :: "string \<Rightarrow> string \<times> string option \<times> string option" where
  "name_parts fullName =
     (let nameParts = split_char CHR ''.'' fullName;
          entityName = hd nameParts;
          nameParts = tl nameParts;
          actionName = (if length nameParts > 0 then Some (last nameParts) else None);
          nameParts = (if length nameParts > 0 then butlast nameParts else nameParts);
          propertyName = (if length nameParts > 0 then Some (join ''.'' nameParts) else None)
      in (entityName, propertyName, actionName))"

lemma name_parts_ok:
  assumes "wf_fullName n" and "name_parts n = (e, p, a)"
  shows "e \<noteq> []" "\<not> has_ws e" "\<not> (truthy p \<and> has_ws (the p))" "\<not> (truthy a \<and> has_ws (the a))"
    "e @ (if truthy p then ''.'' @ the p else []) @ (if truthy a then ''.'' @ the a else []) = n"
proof -
  have nw: "\<forall>c \<in> set n. \<not> is_ws c" using assms(1) by (auto simp: wf_fullName_def has_ws_def)
  have ne: "[] \<notin> set (split_char CHR ''.'' n)" using assms(1) by (simp add: wf_fullName_def)
  obtain e' rest where sp: "split_char CHR ''.'' n = e' # rest"
    using split_char_nonempty [of "CHR ''.''" n] by (cases "split_char CHR ''.'' n") auto
  have j: "join ''.'' (e' # rest) = n" using join_split_char [of "CHR ''.''" n] sp by simp
  have sub: "\<And>q. q \<in> set (e' # rest) \<Longrightarrow> set q \<subseteq> set n"
    using split_char_parts [of _ "CHR ''.''" n] sp by simp
  have dot: "\<not> is_ws CHR ''.''" by (simp add: is_ws_def)
  have e: "e = e'" using assms(2) by (simp add: name_parts_def sp Let_def)
  show "e \<noteq> []" using ne sp e by auto
  show "\<not> has_ws e" using sub [of e'] nw e by (auto simp: has_ws_def)
  show "\<not> (truthy p \<and> has_ws (the p))" "\<not> (truthy a \<and> has_ws (the a))"
    "e @ (if truthy p then ''.'' @ the p else []) @ (if truthy a then ''.'' @ the a else []) = n"
  proof (atomize (full), cases "rest = []")
    case True
    then have "p = None" "a = None" using assms(2) by (simp_all add: name_parts_def sp Let_def)
    then show "\<not> (truthy p \<and> has_ws (the p)) \<and> \<not> (truthy a \<and> has_ws (the a)) \<and>
      e @ (if truthy p then ''.'' @ the p else []) @ (if truthy a then ''.'' @ the a else []) = n"
      using j True e by (simp add: truthy_def)
  next
    case False
    then obtain mid v where r: "rest = mid @ [v]" by (cases rest rule: rev_cases) auto
    have a: "a = Some v" using assms(2) by (simp add: name_parts_def sp Let_def r)
    have v: "v \<noteq> []" using ne sp r by auto
    have vw: "\<not> has_ws v" using sub [of v] nw r by (auto simp: has_ws_def)
    show "\<not> (truthy p \<and> has_ws (the p)) \<and> \<not> (truthy a \<and> has_ws (the a)) \<and>
      e @ (if truthy p then ''.'' @ the p else []) @ (if truthy a then ''.'' @ the a else []) = n"
    proof (cases "mid = []")
      case True
      then have "p = None" using assms(2) by (simp add: name_parts_def sp Let_def r)
      then show ?thesis using a v vw j e r True by (simp add: truthy_def)
    next
      case False
      then have p: "p = Some (join ''.'' mid)"
        using assms(2) by (simp add: name_parts_def sp Let_def r)
      obtain m ms where m: "mid = m # ms" using False by (cases mid) auto
      have "m \<noteq> []" using ne sp r m by auto
      then have pn: "join ''.'' mid \<noteq> []" by (simp add: m join_Cons)
      have "set (join ''.'' mid) \<subseteq> set ''.'' \<union> \<Union> (set ` set mid)" by (rule set_join)
      moreover have "\<Union> (set ` set mid) \<subseteq> set n" using sub r by auto
      ultimately have pw: "\<not> has_ws (join ''.'' mid)"
        using nw dot by (auto simp: has_ws_def)
      have "join ''.'' (e' # mid @ [v]) = e' @ ''.'' @ join ''.'' mid @ ''.'' @ v"
        using False by (simp add: join_Cons join_snoc)
      then show ?thesis using a p v vw pn pw j e r by (simp add: truthy_def)
    qed
  qed
qed

lemma header_split:
  assumes "wf_fullName (getFullName r)"
  shows "\<exists>T. header r = getFullName r @ T \<and> (T = [] \<or> hd T = CHR '' '')
             \<and> CHR 0x0A \<notin> set T"
proof -
  define n where "n = getFullName r"
  define X where "X = ''    '' @ descriptionToString (Record.description r)"
  have nw: "\<forall>c \<in> set n. \<not> is_ws c" and ne: "n \<noteq> []"
    using assms by (auto simp: wf_fullName_def has_ws_def n_def)
  have h: "\<not> is_ws (hd n)" "\<not> is_ws (last n)" using nw ne by auto
  have "header r = trim (n @ X)" by (simp add: header_def n_def X_def)
  also have "\<dots> = rstrip (n @ X)" using ne h by (intro trim_no_lead) auto
  also have "\<dots> = n @ rstrip X" using ne h by (intro rstrip_append_keep) auto
  finally have s: "header r = n @ rstrip X" .
  obtain y where y: "X = rstrip X @ y" using rstrip_prefix [of X] by blast
  have hx: "hd X = CHR '' ''" by (simp add: X_def)
  have t: "rstrip X = [] \<or> hd (rstrip X) = CHR '' ''"
  proof (cases "rstrip X = []")
    case True
    then show ?thesis by simp
  next
    case False
    then have "hd X = hd (rstrip X)" using y by (metis hd_append2)
    then show ?thesis using hx by simp
  qed
  have "CHR 0x0A \<notin> set X"
    using descriptionToString_ok [of "Record.description r"] by (simp add: X_def desc_ok_def)
  then have "CHR 0x0A \<notin> set (rstrip X)" using set_rstrip [of X] by auto
  then show ?thesis using s t by (auto simp: n_def)
qed

subsection \<open>The parser on one line\<close>

text \<open>
  The section, the record and the tree that the parser builds from the serialization: the
  descriptions and the cut of the full name into entity, property and action are those
  that the parser reads; everything else is kept.
\<close>

definition reparsed_section :: "Section \<Rightarrow> Section" where
  "reparsed_section s = s\<lparr>sfields := map (\<lambda>p. (fst p, reparsed_field (snd p))) (sfields s)\<rparr>"

definition reparsed_record :: "Record \<Rightarrow> Record" where
  "reparsed_record r =
     (let d = parseRecordDeclaration (header r)
      in \<lparr>entityName = rd_entityName d, propertyName = rd_propertyName d,
          verb = rd_actionName d,
          sections = map (\<lambda>p. (fst p, reparsed_section (snd p))) (sections r),
          Record.description = rd_description d\<rparr>)"

definition reparsed_tree :: "Tree \<Rightarrow> Tree" where
  "reparsed_tree t = \<lparr>records = map (\<lambda>p. (fst p, reparsed_record (snd p))) (records t)\<rparr>"

text \<open>The state of the parser while the record \<open>rc\<close> is open, after the records \<open>ms\<close>.\<close>

definition st_of :: "(string \<times> Record) list \<Rightarrow> Record \<Rightarrow> string \<Rightarrow> ParserState" where
  "st_of ms rc cur =
     \<lparr>tree = \<lparr>records = ms @ [(getFullName rc, rc)]\<rparr>, currentRecord = Some rc,
      currentSectionName = cur\<rparr>"

lemma Map_get_last: "k \<notin> set (map fst pre) \<Longrightarrow> Map_get k (pre @ [(k, v)]) = Some v"
  by (induction pre) (auto simp: Map_get_def)

lemma Map_set_last: "k \<notin> set (map fst pre) \<Longrightarrow> Map_set k v' (pre @ [(k, v)]) = pre @ [(k, v')]"
  by (induction pre) auto

lemma Map_has_iff: "Map_has k m = (k \<in> set (map fst m))"
  by (simp add: Map_has_def)

lemma getFullName_sections [simp]: "getFullName (r\<lparr>sections := x\<rparr>) = getFullName r"
  by (simp add: getFullName_def Let_def)

lemma parseLine_field:
  assumes "trim l = fs" and "fs \<noteq> []" and "\<not> isRecordDeclaration l"
    and "\<not> isSectionDeclaration fs" and "parseField fs = Inr f'"
    and "currentRecord st = Some rc"
    and "Record_addField f' (Some (currentSectionName st)) rc = (Inr (), rc')"
  shows "parseLine l st
           = Inr (st\<lparr>tree := Tree_setRecord rc' (tree st), currentRecord := Some rc'\<rparr>)"
  using assms(2) by (simp add: parseLine_def assms(1,3-7) Let_def)

lemma parseLine_section:
  assumes "trim l = sl" and "sl \<noteq> []" and "\<not> isRecordDeclaration l"
    and "isSectionDeclaration sl" and "parseSectionDeclaration sl = Some n"
    and "currentRecord st = Some rc"
    and "Record_addSection n rc = (Inr s, rc')"
  shows "parseLine l st
           = Inr \<lparr>tree = Tree_setRecord rc' (tree st), currentRecord = Some rc',
                  currentSectionName = n\<rparr>"
  using assms(2) by (simp add: parseLine_def assms(1,3-7) Let_def)

lemma setRecord_st:
  assumes "getFullName rc \<notin> set (map fst ms)"
  shows "Tree_setRecord (rc\<lparr>sections := x\<rparr>) \<lparr>records = ms @ [(getFullName rc, rc)]\<rparr>
           = \<lparr>records = ms @ [(getFullName rc, rc\<lparr>sections := x\<rparr>)]\<rparr>"
  using assms by (simp add: Tree_setRecord_def Map_set_last)

lemma step_field:
  assumes wf: "wf_field f"
    and fresh: "getFullName rc \<notin> set (map fst ms)"
    and secs: "sections rc = pre @ [(cur, s)]" and cur: "cur \<notin> set (map fst pre)"
    and nf: "Field.name f \<notin> set (map fst (sfields s))"
  shows "parseLine (''    '' @ Field_stringify f) (st_of ms rc cur)
           = Inr (st_of ms (rc\<lparr>sections := pre @ [(cur,
                    s\<lparr>sfields := sfields s @ [(Field.name f, reparsed_field f)]\<rparr>)]\<rparr>) cur)"
proof -
  define fs where "fs = Field_stringify f"
  have fl: "fs \<noteq> []" "hd fs \<noteq> CHR ''@''" "trim (''    '' @ fs) = fs"
    using field_line [OF wf] by (simp_all add: fs_def)
  have pf: "parseField fs = Inr (reparsed_field f)"
    using parseField_stringify [OF wf] by (simp add: fs_def)
  have nr: "\<not> isRecordDeclaration (''    '' @ fs)"
    by (simp add: isRecordDeclaration_def is_ws_def)
  have ns: "\<not> isSectionDeclaration fs"
    using fl(1,2) by (cases fs) (auto simp: isSectionDeclaration_def startsWith_def)
  have nm: "Field.name (reparsed_field f) = Field.name f" by (simp add: reparsed_field_def)
  have af: "Section_addField (reparsed_field f) s
              = (Inr (), s\<lparr>sfields := sfields s @ [(Field.name f, reparsed_field f)]\<rparr>)"
    using nf by (simp add: Section_addField_def Section_hasField_def Map_has_iff nm Map_set_fresh)
  have ra: "Record_addField (reparsed_field f) (Some cur) rc
              = (Inr (), rc\<lparr>sections := pre @ [(cur,
                    s\<lparr>sfields := sfields s @ [(Field.name f, reparsed_field f)]\<rparr>)]\<rparr>)"
    using cur by (simp add: Record_addField_def sectionNameOrMain_def secs Map_get_last af
                    Map_set_last)
  have "parseLine (''    '' @ fs) (st_of ms rc cur)
          = Inr ((st_of ms rc cur)\<lparr>tree := Tree_setRecord
                   (rc\<lparr>sections := pre @ [(cur,
                      s\<lparr>sfields := sfields s @ [(Field.name f, reparsed_field f)]\<rparr>)]\<rparr>)
                   (tree (st_of ms rc cur)),
                 currentRecord := Some (rc\<lparr>sections := pre @ [(cur,
                      s\<lparr>sfields := sfields s @ [(Field.name f, reparsed_field f)]\<rparr>)]\<rparr>)\<rparr>)"
    using fl(3) fl(1) nr ns pf
  proof (rule parseLine_field)
    show "currentRecord (st_of ms rc cur) = Some rc" by (simp add: st_of_def)
    show "Record_addField (reparsed_field f) (Some (currentSectionName (st_of ms rc cur))) rc
            = (Inr (), rc\<lparr>sections := pre @ [(cur,
                      s\<lparr>sfields := sfields s @ [(Field.name f, reparsed_field f)]\<rparr>)]\<rparr>)"
      using ra by (simp add: st_of_def)
  qed
  then show ?thesis
    by (simp add: fs_def st_of_def setRecord_st [OF fresh])
qed

lemma step_section:
  assumes nm: "n \<noteq> []" "list_all is_section_char n"
    and fresh: "getFullName rc \<notin> set (map fst ms)"
    and new: "n \<notin> set (map fst (sections rc))"
  shows "parseLine (''    @'' @ n) (st_of ms rc cur)
           = Inr (st_of ms (rc\<lparr>sections := sections rc @ [(n, \<lparr>Section.name = n, sfields = []\<rparr>)]\<rparr>) n)"
proof -
  have nw: "\<forall>c \<in> set n. \<not> is_ws c"
    using nm(2) by (auto simp: list_all_iff is_section_char_def is_word_def is_ws_def Let_def)
  have l: "\<not> is_ws (last (CHR ''@'' # n))" using nm(1) nw by auto
  have at: "\<not> is_ws CHR ''@''" by (simp add: is_ws_def)
  have "trim (CHR ''@'' # n) = CHR ''@'' # n" using l at by (intro trim_id) auto
  moreover have "list_all is_ws ''    ''" by (simp add: is_ws_def)
  ultimately have tr: "trim (''    @'' @ n) = CHR ''@'' # n"
    using trim_ws_prefix [of "''    ''" "CHR ''@'' # n"] by simp
  have nr: "\<not> isRecordDeclaration (''    @'' @ n)"
    by (simp add: isRecordDeclaration_def is_ws_def)
  have sd: "isSectionDeclaration (CHR ''@'' # n)"
    by (simp add: isSectionDeclaration_def startsWith_def)
  have tw: "takeWhile is_section_char n = n" using nm(2) by (simp add: list_all_iff)
  have ps: "parseSectionDeclaration (CHR ''@'' # n) = Some n"
    by (simp add: parseSectionDeclaration_def tw nm(1))
  have sn: "Section_new n = Inr \<lparr>Section.name = n, sfields = []\<rparr>"
    using nm(1) nw by (simp add: Section_new_def has_ws_def)
  have ra: "Record_addSection n rc
              = (Inr \<lparr>Section.name = n, sfields = []\<rparr>,
                 rc\<lparr>sections := sections rc @ [(n, \<lparr>Section.name = n, sfields = []\<rparr>)]\<rparr>)"
    using new by (simp add: Record_addSection_def Map_has_iff sn Map_set_fresh)
  have "parseLine (''    @'' @ n) (st_of ms rc cur)
          = Inr \<lparr>tree = Tree_setRecord
                   (rc\<lparr>sections := sections rc @ [(n, \<lparr>Section.name = n, sfields = []\<rparr>)]\<rparr>)
                   (tree (st_of ms rc cur)),
                 currentRecord = Some (rc\<lparr>sections := sections rc
                                         @ [(n, \<lparr>Section.name = n, sfields = []\<rparr>)]\<rparr>),
                 currentSectionName = n\<rparr>"
    using tr _ nr sd ps
  proof (rule parseLine_section)
    show "CHR ''@'' # n \<noteq> []" by simp
    show "currentRecord (st_of ms rc cur) = Some rc" by (simp add: st_of_def)
    show "Record_addSection n rc
            = (Inr \<lparr>Section.name = n, sfields = []\<rparr>,
               rc\<lparr>sections := sections rc @ [(n, \<lparr>Section.name = n, sfields = []\<rparr>)]\<rparr>)"
      using ra .
  qed
  then show ?thesis
    by (simp add: st_of_def setRecord_st [OF fresh])
qed

lemma trim_idem: "trim (trim s) = trim s"
proof (cases "trim s = []")
  case True
  have "trim [] = []" by (simp add: trim_def)
  then show ?thesis using True by simp
next
  case False
  define d where "d = dropWhile is_ws s"
  have t: "trim s = rstrip d" by (simp add: trim_rstrip d_def)
  obtain y where y: "d = rstrip d @ y" using rstrip_prefix [of d] by blast
  have dn: "d \<noteq> []" using False t by auto
  then have "\<not> is_ws (hd d)" using hd_dropWhile [of is_ws s] by (simp add: d_def)
  moreover have "hd d = hd (rstrip d)" using y False t by (metis hd_append2)
  ultimately have "\<not> is_ws (hd (trim s))" by (simp add: t)
  moreover have "\<not> is_ws (last (trim s))" using rstrip_last [of d] False t by auto
  ultimately show ?thesis using False by (intro trim_id)
qed

text \<open>The record that the record line creates, with its empty section \<open>main\<close>.\<close>

definition fresh_record :: "Record \<Rightarrow> Record" where
  "fresh_record r =
     (reparsed_record r)\<lparr>sections := [(''main'', \<lparr>Section.name = ''main'', sfields = []\<rparr>)]\<rparr>"

lemma parseRecordDeclaration_parts:
  "rd_entityName (parseRecordDeclaration line)
     = fst (name_parts (takeWhile (\<lambda>c. \<not> is_ws c) (trim line)))"
  "rd_propertyName (parseRecordDeclaration line)
     = fst (snd (name_parts (takeWhile (\<lambda>c. \<not> is_ws c) (trim line))))"
  "rd_actionName (parseRecordDeclaration line)
     = snd (snd (name_parts (takeWhile (\<lambda>c. \<not> is_ws c) (trim line))))"
  by (simp_all add: parseRecordDeclaration_def name_parts_def Let_def)

lemma header_record:
  assumes "wf_fullName (getFullName r)"
  shows "Record_new (rd_entityName (parseRecordDeclaration (header r)))
           (rd_propertyName (parseRecordDeclaration (header r)))
           (rd_actionName (parseRecordDeclaration (header r)))
           (rd_description (parseRecordDeclaration (header r))) = Inr (fresh_record r)"
    and "getFullName (fresh_record r) = getFullName r"
    and "getFullName (reparsed_record r) = getFullName r"
proof -
  define n where "n = getFullName r"
  obtain T where T: "header r = n @ T" "T = [] \<or> hd T = CHR '' ''"
    using header_split [OF assms] by (auto simp: n_def)
  have nw: "\<forall>c \<in> set n. \<not> is_ws c"
    using assms by (auto simp: wf_fullName_def has_ws_def n_def)
  have sp: "is_ws CHR '' ''" by (simp add: is_ws_def)
  have "trim (header r) = header r" by (simp add: header_def trim_idem)
  moreover have "takeWhile (\<lambda>c. \<not> is_ws c) (n @ T) = n"
    using nw T(2) sp by (cases T) (auto simp: takeWhile_append)
  ultimately have tw: "takeWhile (\<lambda>c. \<not> is_ws c) (trim (header r)) = n" by (simp add: T(1))
  obtain e p a where np: "name_parts n = (e, p, a)" by (cases "name_parts n")
  define d where "d = parseRecordDeclaration (header r)"
  have d: "rd_entityName d = e" "rd_propertyName d = p" "rd_actionName d = a"
    by (simp_all add: d_def parseRecordDeclaration_parts tw np)
  have ok: "e \<noteq> []" "\<not> has_ws e" "\<not> (truthy p \<and> has_ws (the p))"
    "\<not> (truthy a \<and> has_ws (the a))"
    "e @ (if truthy p then ''.'' @ the p else []) @ (if truthy a then ''.'' @ the a else []) = n"
    using name_parts_ok [OF _ np] assms by (simp_all add: n_def)
  have m: "\<not> has_ws ''main''" by (simp add: has_ws_def is_ws_def)
  have te: "\<And>x. \<not> (truthy x \<and> length (the x) = 0)" by (auto simp: truthy_def split: option.splits)
  show "Record_new (rd_entityName (parseRecordDeclaration (header r)))
           (rd_propertyName (parseRecordDeclaration (header r)))
           (rd_actionName (parseRecordDeclaration (header r)))
           (rd_description (parseRecordDeclaration (header r))) = Inr (fresh_record r)"
    using ok(1-4) te
    by (simp add: d_def [symmetric] d Record_new_def Section_new_def m fresh_record_def
          reparsed_record_def Let_def)
  show "getFullName (reparsed_record r) = getFullName r"
    using ok(5) by (auto simp: reparsed_record_def d_def [symmetric] d Let_def getFullName_def n_def)
  then show "getFullName (fresh_record r) = getFullName r"
    by (simp add: fresh_record_def)
qed

lemma step_header:
  assumes wf: "wf_fullName (getFullName r)"
    and new: "getFullName r \<notin> set (map fst (records (tree st)))"
  shows "parseLine (header r) st = Inr (st_of (records (tree st)) (fresh_record r) ''main'')"
proof -
  define n where "n = getFullName r"
  obtain T where T: "header r = n @ T" using header_split [OF wf] by (auto simp: n_def)
  have n: "n \<noteq> []" "\<not> is_ws (hd n)" "hd n \<noteq> CHR ''@''"
    using wf by (auto simp: wf_fullName_def has_ws_def n_def)
  have ne: "trim (header r) \<noteq> []"
  proof -
    have "trim (header r) = header r" by (simp add: header_def trim_idem)
    then show ?thesis using n(1) by (simp add: T)
  qed
  have rd: "isRecordDeclaration (header r)"
    using n by (cases n) (auto simp: T isRecordDeclaration_def isSectionDeclaration_def startsWith_def)
  have fn: "getFullName (fresh_record r) = n" using header_record(2) [OF wf] by (simp add: n_def)
  have ar: "Tree_addRecord (rd_entityName (parseRecordDeclaration (header r)))
           (rd_propertyName (parseRecordDeclaration (header r)))
           (rd_actionName (parseRecordDeclaration (header r)))
           (rd_description (parseRecordDeclaration (header r))) (tree st)
        = (Inr (fresh_record r),
           (tree st)\<lparr>records := records (tree st) @ [(n, fresh_record r)]\<rparr>)"
    using new
    by (simp add: Tree_addRecord_def header_record(1) [OF wf] fn Map_has_iff n_def [symmetric]
          Map_set_fresh Let_def)
  show ?thesis
    by (simp add: parseLine_def ne rd ar st_of_def fn Let_def)
qed

subsection \<open>Well-formed trees\<close>

text \<open>
  A section has a name of \<open>[\w_\.]\<close> characters and keeps well-formed fields under their
  names; a record has a well-formed full name and keeps its sections under their names,
  \<open>main\<close> first; a tree keeps well-formed records under their full names.
\<close>

definition wf_section :: "Section \<Rightarrow> bool" where
  "wf_section s =
     (Section.name s \<noteq> [] \<and> list_all is_section_char (Section.name s)
      \<and> map fst (sfields s) = map (\<lambda>p. Field.name (snd p)) (sfields s)
      \<and> distinct (map fst (sfields s))
      \<and> list_all (\<lambda>p. wf_field (snd p)) (sfields s))"

definition wf_record :: "Record \<Rightarrow> bool" where
  "wf_record r =
     (wf_fullName (getFullName r)
      \<and> (case sections r of [] \<Rightarrow> False | p # _ \<Rightarrow> fst p = ''main'')
      \<and> map fst (sections r) = map (\<lambda>p. Section.name (snd p)) (sections r)
      \<and> distinct (map fst (sections r))
      \<and> list_all (\<lambda>p. wf_section (snd p)) (sections r))"

definition wf_tree :: "Tree \<Rightarrow> bool" where
  "wf_tree t =
     (map fst (records t) = map (\<lambda>p. getFullName (snd p)) (records t)
      \<and> distinct (map fst (records t))
      \<and> list_all (\<lambda>p. wf_record (snd p)) (records t))"

text \<open>The lines, other than blank ones, that the serializer writes.\<close>

definition field_lines :: "(string \<times> Field) list \<Rightarrow> string list" where
  "field_lines fs = map (\<lambda>p. ''    '' @ Field_stringify (snd p)) fs"

definition section_lines :: "Section \<Rightarrow> string list" where
  "section_lines s =
     (if Section.name s = ''main'' then [] else [''    @'' @ Section.name s])
     @ field_lines (sfields s)"

definition record_lines :: "Record \<Rightarrow> string list" where
  "record_lines r = header r # concat (map (\<lambda>p. section_lines (snd p)) (sections r))"

subsection \<open>The parser on the lines of a section, a record and a tree\<close>

lemma fields_parse:
  assumes "list_all (\<lambda>p. wf_field (snd p)) fs"
    and "map fst fs = map (\<lambda>p. Field.name (snd p)) fs"
    and "distinct (map fst fs)"
    and "getFullName rc \<notin> set (map fst ms)"
    and "sections rc = pre @ [(cur, s)]" and "cur \<notin> set (map fst pre)"
    and "set (map fst fs) \<inter> set (map fst (sfields s)) = {}"
  shows "parseLines (field_lines fs) (st_of ms rc cur)
           = Inr (st_of ms (rc\<lparr>sections := pre @ [(cur,
                    s\<lparr>sfields := sfields s @ map (\<lambda>p. (fst p, reparsed_field (snd p))) fs\<rparr>)]\<rparr>) cur)"
  using assms
proof (induction fs arbitrary: rc s)
  case Nil
  have "rc\<lparr>sections := pre @ [(cur, s)]\<rparr> = rc" using Nil.prems(5) by simp
  then show ?case by (simp add: field_lines_def)
next
  case (Cons p fs)
  obtain k f where p: "p = (k, f)" by (cases p)
  have k: "k = Field.name f" and wf: "wf_field f" using Cons.prems(1,2) by (auto simp: p)
  have nf: "Field.name f \<notin> set (map fst (sfields s))" using Cons.prems(7) k by (auto simp: p)
  define s' where "s' = s\<lparr>sfields := sfields s @ [(Field.name f, reparsed_field f)]\<rparr>"
  define rc' where "rc' = rc\<lparr>sections := pre @ [(cur, s')]\<rparr>"
  have st: "parseLine (''    '' @ Field_stringify f) (st_of ms rc cur) = Inr (st_of ms rc' cur)"
    using step_field [OF wf Cons.prems(4,5,6) nf] by (simp add: rc'_def s'_def)
  have ih: "parseLines (field_lines fs) (st_of ms rc' cur)
           = Inr (st_of ms (rc'\<lparr>sections := pre @ [(cur,
                    s'\<lparr>sfields := sfields s' @ map (\<lambda>p. (fst p, reparsed_field (snd p))) fs\<rparr>)]\<rparr>) cur)"
  proof (rule Cons.IH)
    show "list_all (\<lambda>p. wf_field (snd p)) fs" using Cons.prems(1) by simp
    show "map fst fs = map (\<lambda>p. Field.name (snd p)) fs" using Cons.prems(2) by simp
    show "distinct (map fst fs)" using Cons.prems(3) by simp
    show "getFullName rc' \<notin> set (map fst ms)" using Cons.prems(4) by (simp add: rc'_def)
    show "sections rc' = pre @ [(cur, s')]" by (simp add: rc'_def)
    show "cur \<notin> set (map fst pre)" using Cons.prems(6) .
    show "set (map fst fs) \<inter> set (map fst (sfields s')) = {}"
      using Cons.prems(3,7) k by (auto simp: s'_def p)
  qed
  have "field_lines (p # fs) = (''    '' @ Field_stringify f) # field_lines fs"
    by (simp add: field_lines_def p)
  then show ?case
    using st ih by (simp add: rc'_def s'_def k p)
qed

lemma reparsed_section_eq:
  "Section.name s = k \<Longrightarrow>
     \<lparr>Section.name = k, sfields = map (\<lambda>p. (fst p, reparsed_field (snd p))) (sfields s)\<rparr>
       = reparsed_section s"
  by (simp add: reparsed_section_def)

lemma section_parse:
  assumes wf: "wf_section s" and nm: "Section.name s \<noteq> ''main''"
    and fresh: "getFullName rc \<notin> set (map fst ms)"
    and new: "Section.name s \<notin> set (map fst (sections rc))"
  shows "parseLines (section_lines s) (st_of ms rc cur)
           = Inr (st_of ms (rc\<lparr>sections := sections rc @ [(Section.name s, reparsed_section s)]\<rparr>)
                   (Section.name s))"
proof -
  define k where "k = Section.name s"
  define rc1 where "rc1 = rc\<lparr>sections := sections rc @ [(k, \<lparr>Section.name = k, sfields = []\<rparr>)]\<rparr>"
  have w: "k \<noteq> []" "list_all is_section_char k"
    "list_all (\<lambda>p. wf_field (snd p)) (sfields s)"
    "map fst (sfields s) = map (\<lambda>p. Field.name (snd p)) (sfields s)"
    "distinct (map fst (sfields s))"
    using wf by (auto simp: wf_section_def k_def)
  have s1: "parseLine (''    @'' @ k) (st_of ms rc cur) = Inr (st_of ms rc1 k)"
    using step_section [OF w(1,2) fresh] new by (simp add: rc1_def k_def)
  have s2: "parseLines (field_lines (sfields s)) (st_of ms rc1 k)
           = Inr (st_of ms (rc1\<lparr>sections := sections rc @ [(k,
                    \<lparr>Section.name = k, sfields = []\<rparr>\<lparr>sfields := sfields \<lparr>Section.name = k, sfields = []\<rparr>
                        @ map (\<lambda>p. (fst p, reparsed_field (snd p))) (sfields s)\<rparr>)]\<rparr>) k)"
  proof (rule fields_parse [OF w(3,4,5)])
    show "getFullName rc1 \<notin> set (map fst ms)" using fresh by (simp add: rc1_def)
    show "sections rc1 = sections rc @ [(k, \<lparr>Section.name = k, sfields = []\<rparr>)]"
      by (simp add: rc1_def)
    show "k \<notin> set (map fst (sections rc))" using new by (simp add: k_def)
    show "set (map fst (sfields s)) \<inter> set (map fst (sfields \<lparr>Section.name = k, sfields = []\<rparr>)) = {}"
      by simp
  qed
  have "section_lines s = (''    @'' @ k) # field_lines (sfields s)"
    using nm by (simp add: section_lines_def k_def)
  then show ?thesis
    using s1 s2 reparsed_section_eq [of s k]
    by (simp add: rc1_def k_def)
qed

lemma sections_parse:
  assumes "list_all (\<lambda>p. wf_section (snd p)) todo"
    and "map fst todo = map (\<lambda>p. Section.name (snd p)) todo"
    and "distinct (map fst todo)" and "''main'' \<notin> set (map fst todo)"
    and "set (map fst todo) \<inter> set (map fst (sections rc)) = {}"
    and "getFullName rc \<notin> set (map fst ms)"
  shows "\<exists>cur'. parseLines (concat (map (\<lambda>p. section_lines (snd p)) todo)) (st_of ms rc cur)
           = Inr (st_of ms (rc\<lparr>sections := sections rc
                     @ map (\<lambda>p. (fst p, reparsed_section (snd p))) todo\<rparr>) cur')"
  using assms
proof (induction todo arbitrary: rc cur)
  case Nil
  show ?case by (rule exI [of _ cur]) simp
next
  case (Cons p todo)
  obtain k s where p: "p = (k, s)" by (cases p)
  have k: "k = Section.name s" and wf: "wf_section s" using Cons.prems(1,2) by (auto simp: p)
  have nm: "Section.name s \<noteq> ''main''" using Cons.prems(4) k by (auto simp: p)
  have new: "Section.name s \<notin> set (map fst (sections rc))"
    using Cons.prems(5) k by (auto simp: p)
  define rc' where "rc' = rc\<lparr>sections := sections rc @ [(k, reparsed_section s)]\<rparr>"
  have s1: "parseLines (section_lines s) (st_of ms rc cur) = Inr (st_of ms rc' k)"
    using section_parse [OF wf nm Cons.prems(6) new] by (simp add: rc'_def k)
  have "\<exists>cur'. parseLines (concat (map (\<lambda>p. section_lines (snd p)) todo)) (st_of ms rc' k)
           = Inr (st_of ms (rc'\<lparr>sections := sections rc'
                     @ map (\<lambda>p. (fst p, reparsed_section (snd p))) todo\<rparr>) cur')"
  proof (rule Cons.IH)
    show "list_all (\<lambda>p. wf_section (snd p)) todo" using Cons.prems(1) by simp
    show "map fst todo = map (\<lambda>p. Section.name (snd p)) todo" using Cons.prems(2) by simp
    show "distinct (map fst todo)" using Cons.prems(3) by simp
    show "''main'' \<notin> set (map fst todo)" using Cons.prems(4) by simp
    show "set (map fst todo) \<inter> set (map fst (sections rc')) = {}"
      using Cons.prems(3,5) by (auto simp: rc'_def p)
    show "getFullName rc' \<notin> set (map fst ms)" using Cons.prems(6) by (simp add: rc'_def)
  qed
  then obtain cur' where s2:
    "parseLines (concat (map (\<lambda>p. section_lines (snd p)) todo)) (st_of ms rc' k)
       = Inr (st_of ms (rc'\<lparr>sections := sections rc'
                 @ map (\<lambda>p. (fst p, reparsed_section (snd p))) todo\<rparr>) cur')"
    by blast
  have "parseLines (concat (map (\<lambda>p. section_lines (snd p)) (p # todo))) (st_of ms rc cur)
          = Inr (st_of ms (rc'\<lparr>sections := sections rc'
                 @ map (\<lambda>p. (fst p, reparsed_section (snd p))) todo\<rparr>) cur')"
    using s1 s2 by (simp add: p parseLines_append)
  then show ?case by (auto simp: rc'_def p)
qed

lemma record_parse:
  assumes wf: "wf_record r"
    and new: "getFullName r \<notin> set (map fst (records (tree st)))"
  shows "\<exists>cur'. parseLines (record_lines r) st
           = Inr (st_of (records (tree st)) (reparsed_record r) cur')"
proof -
  define ms where "ms = records (tree st)"
  obtain sm others where secs: "sections r = (''main'', sm) # others"
    using wf by (cases "sections r") (auto simp: wf_record_def)
  have u: "wf_fullName (getFullName r)"
    "map fst (sections r) = map (\<lambda>p. Section.name (snd p)) (sections r)"
    "distinct (map fst (sections r))" "list_all (\<lambda>p. wf_section (snd p)) (sections r)"
    using wf by (simp_all add: wf_record_def)
  have w: "wf_fullName (getFullName r)" "Section.name sm = ''main''" "wf_section sm"
    "list_all (\<lambda>p. wf_section (snd p)) others"
    "map fst others = map (\<lambda>p. Section.name (snd p)) others"
    "distinct (map fst others)" "''main'' \<notin> set (map fst others)"
    using u by (simp_all add: secs)
  have wm: "list_all (\<lambda>p. wf_field (snd p)) (sfields sm)"
    "map fst (sfields sm) = map (\<lambda>p. Field.name (snd p)) (sfields sm)"
    "distinct (map fst (sfields sm))"
    using w(3) by (auto simp: wf_section_def)
  define r0 where "r0 = fresh_record r"
  have fn: "getFullName r0 = getFullName r" using header_record(2) [OF w(1)] by (simp add: r0_def)
  have fr: "getFullName r0 \<notin> set (map fst ms)" using new by (simp add: fn ms_def)
  have s0: "sections r0 = [] @ [(''main'', \<lparr>Section.name = ''main'', sfields = []\<rparr>)]"
    by (simp add: r0_def fresh_record_def)
  have h: "parseLine (header r) st = Inr (st_of ms r0 ''main'')"
    using step_header [OF w(1) new] by (simp add: r0_def ms_def)
  define r1 where "r1 = r0\<lparr>sections := [(''main'', reparsed_section sm)]\<rparr>"
  have "parseLines (field_lines (sfields sm)) (st_of ms r0 ''main'')
          = Inr (st_of ms (r0\<lparr>sections := [] @ [(''main'',
                    \<lparr>Section.name = ''main'', sfields = []\<rparr>\<lparr>sfields :=
                       sfields \<lparr>Section.name = ''main'', sfields = []\<rparr>
                       @ map (\<lambda>p. (fst p, reparsed_field (snd p))) (sfields sm)\<rparr>)]\<rparr>) ''main'')"
    by (rule fields_parse [OF wm fr s0]) simp_all
  then have m: "parseLines (section_lines sm) (st_of ms r0 ''main'') = Inr (st_of ms r1 ''main'')"
    using reparsed_section_eq [OF w(2)] by (simp add: section_lines_def w(2) r1_def)
  have "\<exists>cur'. parseLines (concat (map (\<lambda>p. section_lines (snd p)) others)) (st_of ms r1 ''main'')
           = Inr (st_of ms (r1\<lparr>sections := sections r1
                     @ map (\<lambda>p. (fst p, reparsed_section (snd p))) others\<rparr>) cur')"
  proof (rule sections_parse [OF w(4,5,6,7)])
    show "set (map fst others) \<inter> set (map fst (sections r1)) = {}"
      using w(7) by (auto simp: r1_def)
    show "getFullName r1 \<notin> set (map fst ms)" using fr by (simp add: r1_def)
  qed
  then obtain cur' where o:
    "parseLines (concat (map (\<lambda>p. section_lines (snd p)) others)) (st_of ms r1 ''main'')
           = Inr (st_of ms (r1\<lparr>sections := sections r1
                     @ map (\<lambda>p. (fst p, reparsed_section (snd p))) others\<rparr>) cur')"
    by blast
  have fin: "r1\<lparr>sections := sections r1 @ map (\<lambda>p. (fst p, reparsed_section (snd p))) others\<rparr>
               = reparsed_record r"
    by (simp add: r1_def r0_def fresh_record_def reparsed_record_def secs Let_def)
  have "record_lines r
          = header r # (section_lines sm @ concat (map (\<lambda>p. section_lines (snd p)) others))"
    by (simp add: record_lines_def secs)
  then have "parseLines (record_lines r) st = Inr (st_of ms (reparsed_record r) cur')"
    using h m o by (simp add: parseLines_append fin)
  then show ?thesis by (auto simp: ms_def)
qed

lemma tree_parse:
  assumes "list_all (\<lambda>p. wf_record (snd p)) recs"
    and "distinct (map (\<lambda>p. getFullName (snd p)) recs)"
    and "set (map (\<lambda>p. getFullName (snd p)) recs) \<inter> set (map fst (records (tree st))) = {}"
  shows "\<exists>st'. parseLines (concat (map (\<lambda>p. record_lines (snd p)) recs)) st = Inr st'
           \<and> records (tree st') = records (tree st)
                @ map (\<lambda>p. (getFullName (snd p), reparsed_record (snd p))) recs"
  using assms
proof (induction recs arbitrary: st)
  case Nil
  then show ?case by simp
next
  case (Cons p recs)
  define r where "r = snd p"
  have wf: "wf_record r" using Cons.prems(1) by (simp add: r_def)
  have new: "getFullName r \<notin> set (map fst (records (tree st)))"
    using Cons.prems(3) by (auto simp: r_def)
  obtain cur' where s1: "parseLines (record_lines r) st
           = Inr (st_of (records (tree st)) (reparsed_record r) cur')"
    using record_parse [OF wf new] by blast
  define st1 where "st1 = st_of (records (tree st)) (reparsed_record r) cur'"
  have fn: "getFullName (reparsed_record r) = getFullName r"
    using header_record(3) wf by (simp add: wf_record_def)
  have t1: "records (tree st1) = records (tree st) @ [(getFullName r, reparsed_record r)]"
    by (simp add: st1_def st_of_def fn)
  have "\<exists>st'. parseLines (concat (map (\<lambda>p. record_lines (snd p)) recs)) st1 = Inr st'
           \<and> records (tree st') = records (tree st1)
                @ map (\<lambda>p. (getFullName (snd p), reparsed_record (snd p))) recs"
  proof (rule Cons.IH)
    show "list_all (\<lambda>p. wf_record (snd p)) recs" using Cons.prems(1) by simp
    show "distinct (map (\<lambda>p. getFullName (snd p)) recs)" using Cons.prems(2) by simp
    show "set (map (\<lambda>p. getFullName (snd p)) recs) \<inter> set (map fst (records (tree st1))) = {}"
      using Cons.prems(2,3) by (auto simp: t1 r_def)
  qed
  then obtain st' where s2:
    "parseLines (concat (map (\<lambda>p. record_lines (snd p)) recs)) st1 = Inr st'"
    "records (tree st') = records (tree st1)
                @ map (\<lambda>p. (getFullName (snd p), reparsed_record (snd p))) recs"
    by blast
  have "parseLines (concat (map (\<lambda>p. record_lines (snd p)) (p # recs))) st = Inr st'"
    using s1 s2(1) by (simp add: parseLines_append r_def st1_def)
  then show ?case using s2(2) t1 by (auto simp: r_def)
qed

subsection \<open>The lines of the serialization\<close>

lemma lines_of_fields:
  assumes "list_all (\<lambda>p. wf_field (snd p)) fs"
  shows "lines_of (join [CHR 0x0A]
           (map (\<lambda>field. ''    '' @ field) (map (\<lambda>(_, field). Field_stringify field) fs)))
         = field_lines fs"
proof -
  have one: "lines_of (''    '' @ Field_stringify f) = [''    '' @ Field_stringify f]"
    if "wf_field f" for f
  proof (rule lines_of_line)
    show "CHR 0x0A \<notin> set (''    '' @ Field_stringify f)"
      using field_line(4) [OF that] by simp
    show "trim (''    '' @ Field_stringify f) \<noteq> []"
      using field_line(1,5) [OF that] by simp
  qed
  have "concat (map lines_of
           (map (\<lambda>field. ''    '' @ field) (map (\<lambda>(_, field). Field_stringify field) fs)))
         = field_lines fs"
    using assms
    by (induction fs) (auto simp: field_lines_def one simp del: append.simps)
  then show ?thesis by (simp only: lines_of_join)
qed

lemma Section_stringify_alt:
  "Section_stringify s =
     (if Section.name s = ''main''
      then join [CHR 0x0A]
             (map (\<lambda>field. ''    '' @ field) (map (\<lambda>(_, field). Field_stringify field) (sfields s)))
           @ [CHR 0x0A]
      else ''    '' @ ''@'' @ Section.name s @ [CHR 0x0A]
           @ join [CHR 0x0A]
               (map (\<lambda>field. ''    '' @ field) (map (\<lambda>(_, field). Field_stringify field) (sfields s)))
           @ [CHR 0x0A])"
  by (simp only: Section_stringify_def Let_def)

lemma lines_of_section:
  assumes "wf_section s"
  shows "lines_of (Section_stringify s) = section_lines s"
proof -
  define F where "F = join [CHR 0x0A]
           (map (\<lambda>field. ''    '' @ field) (map (\<lambda>(_, field). Field_stringify field) (sfields s)))"
  have f: "lines_of F = field_lines (sfields s)"
    unfolding F_def using assms by (intro lines_of_fields) (simp add: wf_section_def)
  have n: "Section.name s \<noteq> []" "list_all is_section_char (Section.name s)"
    using assms by (auto simp: wf_section_def)
  have nw: "\<forall>c \<in> set (Section.name s). \<not> is_ws c"
    using n(2) by (auto simp: list_all_iff is_section_char_def is_word_def is_ws_def Let_def)
  have nl: "is_ws CHR 0x0A" by (simp add: is_ws_def)
  show ?thesis
  proof (cases "Section.name s = ''main''")
    case True
    have "Section_stringify s = F @ [CHR 0x0A]"
      unfolding Section_stringify_alt F_def [symmetric] using True by simp
    then show ?thesis using f True by (simp add: lines_of_nl_end section_lines_def)
  next
    case False
    define H where "H = ''    @'' @ Section.name s"
    have st: "Section_stringify s = H @ CHR 0x0A # (F @ [CHR 0x0A])"
      unfolding Section_stringify_alt F_def [symmetric] using False by (simp add: H_def)
    have at: "\<not> is_ws CHR ''@''" by (simp add: is_ws_def)
    have "trim (CHR ''@'' # Section.name s) = CHR ''@'' # Section.name s"
      using n(1) nw at by (intro trim_id) auto
    moreover have "list_all is_ws ''    ''" by (simp add: is_ws_def)
    ultimately have "trim H = CHR ''@'' # Section.name s"
      using trim_ws_prefix [of "''    ''" "CHR ''@'' # Section.name s"] by (simp add: H_def)
    moreover have "CHR 0x0A \<notin> set H" using nw nl by (auto simp: H_def)
    ultimately have h: "lines_of H = [H]" by (intro lines_of_line) auto
    have "lines_of (H @ CHR 0x0A # (F @ [CHR 0x0A])) = lines_of H @ lines_of (F @ [CHR 0x0A])"
      by (rule lines_of_append)
    then have "lines_of (Section_stringify s) = [H] @ field_lines (sfields s)"
      using f h by (simp only: st lines_of_nl_end)
    moreover have "section_lines s = [H] @ field_lines (sfields s)"
      using False by (simp add: section_lines_def H_def)
    ultimately show ?thesis by simp
  qed
qed

lemma lines_of_record:
  assumes "wf_record r"
  shows "lines_of (Record_stringify r) = record_lines r"
proof -
  have w: "wf_fullName (getFullName r)" "list_all (\<lambda>p. wf_section (snd p)) (sections r)"
    using assms by (auto simp: wf_record_def)
  obtain T where T: "header r = getFullName r @ T" "CHR 0x0A \<notin> set T"
    using header_split [OF w(1)] by blast
  have n: "getFullName r \<noteq> []" "\<forall>c \<in> set (getFullName r). \<not> is_ws c"
    using w(1) by (auto simp: wf_fullName_def has_ws_def)
  have nl: "is_ws CHR 0x0A" by (simp add: is_ws_def)
  have "trim (header r) = header r" by (simp add: header_def trim_idem)
  then have "trim (header r) \<noteq> []" using n(1) T(1) by simp
  moreover have "CHR 0x0A \<notin> set (header r)" using n(2) nl T by auto
  ultimately have h: "lines_of (header r) = [header r]" by (intro lines_of_line)
  have s: "concat (map lines_of (map (\<lambda>(_, section). Section_stringify section) secs))
             = concat (map (\<lambda>p. section_lines (snd p)) secs)"
    if "list_all (\<lambda>p. wf_section (snd p)) secs" for secs :: "(string \<times> Section) list"
    using that by (induction secs) (auto simp: lines_of_section)
  have "Record_stringify r
          = join [CHR 0x0A] (header r # map (\<lambda>(_, section). Section_stringify section) (sections r))"
    by (simp add: Record_stringify_def header_def Let_def)
  then show ?thesis
    using h s [OF w(2)] by (simp add: lines_of_join record_lines_def)
qed

lemma lines_of_tree:
  assumes "list_all (\<lambda>p. wf_record (snd p)) (records t)"
  shows "lines_of (Tree_stringify t) = concat (map (\<lambda>p. record_lines (snd p)) (records t))"
proof -
  have "concat (map lines_of (map (\<lambda>(_, record). Record_stringify record) recs))
          = concat (map (\<lambda>p. record_lines (snd p)) recs)"
    if "list_all (\<lambda>p. wf_record (snd p)) recs" for recs :: "(string \<times> Record) list"
    using that by (induction recs) (auto simp: lines_of_record)
  then show ?thesis using assms by (simp add: Tree_stringify_def lines_of_join2)
qed

lemma map_keys_eq:
  "map fst xs = map g xs \<Longrightarrow> map (\<lambda>p. (g p, h p)) xs = map (\<lambda>p. (fst p, h p)) xs"
  by (induction xs) auto

lemma round_trip:
  assumes "wf_tree t"
  shows "treeFromString (Tree_stringify t) = Inr (reparsed_tree t)"
proof -
  define st0 where
    "st0 = \<lparr>tree = Tree_new, currentRecord = None, currentSectionName = ''main''\<rparr>"
  have w: "map fst (records t) = map (\<lambda>p. getFullName (snd p)) (records t)"
    "distinct (map fst (records t))" "list_all (\<lambda>p. wf_record (snd p)) (records t)"
    using assms by (auto simp: wf_tree_def)
  have "parseLines (split_char CHR 0x0A (Tree_stringify t)) st0
          = parseLines (lines_of (Tree_stringify t)) st0"
    using parseLines_nonblank by (simp add: lines_of_def)
  also have "\<dots> = parseLines (concat (map (\<lambda>p. record_lines (snd p)) (records t))) st0"
    by (simp add: lines_of_tree [OF w(3)])
  finally have e: "parseLines (split_char CHR 0x0A (Tree_stringify t)) st0
          = parseLines (concat (map (\<lambda>p. record_lines (snd p)) (records t))) st0" .
  have "\<exists>st'. parseLines (concat (map (\<lambda>p. record_lines (snd p)) (records t))) st0 = Inr st'
           \<and> records (tree st') = records (tree st0)
                @ map (\<lambda>p. (getFullName (snd p), reparsed_record (snd p))) (records t)"
  proof (rule tree_parse [OF w(3)])
    show "distinct (map (\<lambda>p. getFullName (snd p)) (records t))" by (metis w(1) w(2))
    show "set (map (\<lambda>p. getFullName (snd p)) (records t)) \<inter> set (map fst (records (tree st0))) = {}"
      by (simp add: st0_def Tree_new_def)
  qed
  then obtain st' where s:
    "parseLines (concat (map (\<lambda>p. record_lines (snd p)) (records t))) st0 = Inr st'"
    "records (tree st') = records (tree st0)
                @ map (\<lambda>p. (getFullName (snd p), reparsed_record (snd p))) (records t)"
    by blast
  have "map (\<lambda>p. (getFullName (snd p), reparsed_record (snd p))) (records t)
          = map (\<lambda>p. (fst p, reparsed_record (snd p))) (records t)"
    using w(1) by (rule map_keys_eq)
  then have "tree st' = reparsed_tree t"
    using s(2) by (simp add: st0_def Tree_new_def reparsed_tree_def)
  then show ?thesis
    using e s(1) by (simp add: treeFromString_def st0_def)
qed

subsection \<open>The round trip\<close>

text \<open>
  What the round trip is to keep: the full names of the records, the names of the
  sections and of the fields, each field's optional flag with its default, and its
  attributes.
\<close>

definition field_shape :: "Field \<Rightarrow> string \<times> bool \<times> string option \<times> (string \<times> string option) list" where
  "field_shape f = (Field.name f, isOptional f, defaultValue f, attributes f)"

definition section_shape ::
  "Section \<Rightarrow> string \<times> (string \<times> string \<times> bool \<times> string option \<times> (string \<times> string option) list) list" where
  "section_shape s = (Section.name s, map (\<lambda>p. (fst p, field_shape (snd p))) (sfields s))"

definition record_shape ::
  "Record \<Rightarrow> string \<times> (string \<times> string \<times> (string \<times> string \<times> bool \<times> string option \<times> (string \<times> string option) list) list) list" where
  "record_shape r = (getFullName r, map (\<lambda>p. (fst p, section_shape (snd p))) (sections r))"

definition tree_shape ::
  "Tree \<Rightarrow> (string \<times> string \<times> (string \<times> string \<times> (string \<times> string \<times> bool \<times> string option \<times> (string \<times> string option) list) list) list) list" where
  "tree_shape t = map (\<lambda>p. (fst p, record_shape (snd p))) (records t)"

lemma field_shape_reparsed: "field_shape (reparsed_field f) = field_shape f"
  by (simp add: field_shape_def reparsed_field_def)

lemma section_shape_reparsed: "section_shape (reparsed_section s) = section_shape s"
  by (simp add: section_shape_def reparsed_section_def field_shape_reparsed)

lemma record_shape_reparsed:
  assumes "wf_record r"
  shows "record_shape (reparsed_record r) = record_shape r"
proof -
  have "getFullName (reparsed_record r) = getFullName r"
    using header_record(3) assms by (simp add: wf_record_def)
  moreover have "sections (reparsed_record r)
                   = map (\<lambda>p. (fst p, reparsed_section (snd p))) (sections r)"
    by (simp add: reparsed_record_def Let_def)
  ultimately show ?thesis
    by (simp add: record_shape_def section_shape_reparsed)
qed

lemma tree_shape_reparsed:
  assumes "wf_tree t"
  shows "tree_shape (reparsed_tree t) = tree_shape t"
proof -
  have "\<forall>p \<in> set (records t). wf_record (snd p)"
    using assms by (simp add: wf_tree_def list_all_iff)
  then show ?thesis
    by (simp add: tree_shape_def reparsed_tree_def record_shape_reparsed)
qed

text \<open>
  For every well-formed tree, parsing its serialization succeeds and gives a tree with the
  same record full names, section names, field names, optional flags and defaults, and
  attributes, in the same order.
\<close>

lemma round_trip_shape:
  assumes "wf_tree t"
  shows "treeFromString (Tree_stringify t) = Inr (reparsed_tree t)
         \<and> tree_shape (reparsed_tree t) = tree_shape t"
  using round_trip [OF assms] tree_shape_reparsed [OF assms] by simp

text \<open>A tree with two records, a second section, attributes, a default and descriptions.\<close>

definition tree_example :: Tree where
  "tree_example =
     \<lparr>records =
        [(''user.profile.update'',
          \<lparr>entityName = ''user'', propertyName = Some ''profile'', verb = Some ''update'',
           sections =
             [(''main'',
               \<lparr>Section.name = ''main'',
                sfields =
                  [(''username'',
                    \<lparr>Field.name = ''username'',
                     attributes = [(''maxLength'', Some ''32''), (''unique'', None)],
                     isOptional = False, defaultValue = None,
                     description = Some ''The display name''\<rparr>),
                   (''role'',
                    \<lparr>Field.name = ''role'', attributes = [(''hint'', Some ''it's a role'')],
                     isOptional = True, defaultValue = Some ''guest user'',
                     description = None\<rparr>)]\<rparr>),
              (''returns'',
               \<lparr>Section.name = ''returns'',
                sfields =
                  [(''result'',
                    \<lparr>Field.name = ''result'', attributes = [(''boolean'', None)],
                     isOptional = False, defaultValue = None,
                     description = Some ''see http://x''\<rparr>)]\<rparr>)],
           description = Some ''Updates a profile''\<rparr>),
         (''ping'',
          \<lparr>entityName = ''ping'', propertyName = None, verb = None,
           sections = [(''main'', \<lparr>Section.name = ''main'', sfields = []\<rparr>)],
           description = None\<rparr>)]\<rparr>"

lemma round_trip_example:
  "wf_tree tree_example
   \<and> treeFromString (Tree_stringify tree_example) = Inr (reparsed_tree tree_example)
   \<and> tree_shape (reparsed_tree tree_example) = tree_shape tree_example"
proof -
  have h: "wf_tree tree_example" by code_simp
  show ?thesis using h round_trip_shape [OF h] by simp
qed

subsection \<open>An optional field without default\<close>

text \<open>
  The tree that the parser builds from a record \<open>a\<close> with the field line \<open>x?\<close>, an
  optional field without default, and the tree that its serialization parses to.
\<close>

definition tree_optional_null :: Tree where
  "tree_optional_null =
     \<lparr>records =
        [(''a'',
          \<lparr>entityName = ''a'', propertyName = None, verb = None,
           sections =
             [(''main'',
               \<lparr>Section.name = ''main'',
                sfields =
                  [(''x'',
                    \<lparr>Field.name = ''x'', attributes = [], isOptional = True,
                     defaultValue = None, description = None\<rparr>)]\<rparr>)],
           description = None\<rparr>)]\<rparr>"

definition tree_optional_null_reparsed :: Tree where
  "tree_optional_null_reparsed =
     \<lparr>records =
        [(''a'',
          \<lparr>entityName = ''a'', propertyName = None, verb = None,
           sections =
             [(''main'',
               \<lparr>Section.name = ''main'',
                sfields =
                  [(''x'',
                    \<lparr>Field.name = ''x'', attributes = [], isOptional = True,
                     defaultValue = Some ''null'', description = None\<rparr>)]\<rparr>)],
           description = None\<rparr>)]\<rparr>"

text \<open>
  C1: the text of a record \<open>a\<close> with the field line \<open>x?\<close> parses to the tree above, in
  which no value or description holds a double quote or a line feed. \<open>Field.stringify\<close>
  writes the field as \<open>[x="null"]\<close>, not as \<open>x?\<close>, and the parser reads that line as an
  optional field with the string \<open>null\<close> as default: the tree that comes back has another
  pair of optional flag and default than the tree that was serialized.
\<close>

theorem C1_null_default_round_trip:
  "treeFromString (''a'' @ [CHR 0x0A] @ ''    x?'') = Inr tree_optional_null
   \<and> Tree_stringify tree_optional_null
       = ''a'' @ [CHR 0x0A] @ ''    [x=''  @ [CHR 0x22] @ ''null'' @ [CHR 0x22] @ '']'' @ [CHR 0x0A]
   \<and> treeFromString (Tree_stringify tree_optional_null) = Inr tree_optional_null_reparsed
   \<and> tree_shape tree_optional_null_reparsed \<noteq> tree_shape tree_optional_null"
  by code_simp

end
